theory Spec2Isabelle
  imports Main "HOL-Library.Word"
begin

section \<open>The CART cache of include/Cache.h\<close>

text \<open>
  A shallow embedding of \<^verbatim>\<open>CART::Cache<KEY, VALUE, INTERFACE>\<close> as one thread executes it.
  \<^item> A \<^verbatim>\<open>CLOCKElement*\<close> is an address into an explicit store (\<open>heap\<close>): the index
    \<open>m_T1T2map\<close>, the ghost index \<open>m_B1B2map\<close> and the four lists hold addresses, so
    a write through one of them is seen through the others, as in the source.
    \<^verbatim>\<open>new\<close> takes the next unused address (\<open>heap_next\<close>); \<^verbatim>\<open>delete\<close>
    leaves the store as it is, and a freed address is never handed out again.
  \<^item> A \<^verbatim>\<open>VALUE*\<close> is a number, \<open>0\<close> being \<^verbatim>\<open>nullptr\<close>.
  \<^item> The C++ \<^verbatim>\<open>int\<close> members are unbounded integers (signed overflow is undefined in
    the source); every conversion between signed and unsigned types that the source
    performs, explicitly or implicitly, is written out (\<open>u32\<close>, \<open>u64\<close>, \<open>i32\<close>).
    The byte counter is a 64-bit word and a usage counter a 32-bit word, both wrapping.
  \<^item> A call that does not return normally (the wait loop of \<open>DecUsage\<close> that no other
    thread ends, or undefined behaviour such as reading \<^verbatim>\<open>end()\<close>) has the result
    \<open>None\<close>.
  \<^item> \<^verbatim>\<open>assert\<close> is compiled out (\<^verbatim>\<open>NDEBUG\<close>), except in \<open>Handle_Release\<close>, which
    returns whether its assertion held.
\<close>

subsection \<open>Integer conversions, Min and Max\<close>

type_synonym ptr = nat
type_synonym addr = nat

definition u64 :: "int \<Rightarrow> int" where
  "u64 x = x mod 2 ^ 64"

definition u32 :: "int \<Rightarrow> int" where
  "u32 x = x mod 2 ^ 32"

definition i32 :: "int \<Rightarrow> int" where
  "i32 x = (x + 2 ^ 31) mod 2 ^ 32 - 2 ^ 31"

text \<open>Division of \<^verbatim>\<open>int\<close> in C++ truncates towards zero.\<close>

definition int_div :: "int \<Rightarrow> int \<Rightarrow> int" where
  "int_div a b = sgn a * sgn b * (\<bar>a\<bar> div \<bar>b\<bar>)"

text \<open>
  \<^verbatim>\<open>Max(T x, F y)\<close> is \<^verbatim>\<open>(x < T(y)) ? T(y) : x\<close> and \<^verbatim>\<open>Min(T x, F y)\<close> is
  \<^verbatim>\<open>(x < T(y)) ? x : T(y)\<close>; the conversion \<^verbatim>\<open>T(y)\<close> is applied where they are called.
\<close>

definition Max_T :: "int \<Rightarrow> int \<Rightarrow> int" where
  "Max_T x y = (if x < y then y else x)"

definition Min_T :: "int \<Rightarrow> int \<Rightarrow> int" where
  "Min_T x y = (if x < y then x else y)"

subsection \<open>Data\<close>

record 'k CLOCKElement =
  pageKey :: 'k
  page :: ptr
  referenceBit :: bool
  longBit :: bool
  firstList :: bool

text \<open>
  The loader. \<open>CacheGetValueSize\<close> is the sizer; \<open>UsageId\<close> stands for
  \<^verbatim>\<open>HashMurmur3().Set(std::hash<KEY>()(key)).Add(value)\<close>, the row of the usage map that a
  key and a value pointer share, which depends on the \<^verbatim>\<open>std::hash\<close> of the key type.
  \<^verbatim>\<open>CacheAcquireValue\<close> is not a field: the pointer it returns is an argument of the
  operations that may call it. \<^verbatim>\<open>CacheReleaseValue\<close> appends to \<open>released\<close>.
\<close>

record 'k ICacheControl =
  CacheGetValueSize :: "ptr \<Rightarrow> 64 word"
  UsageId :: "'k \<Rightarrow> ptr \<Rightarrow> 64 word"

record 'k Cache =
  m_p :: int
  m_q :: int
  m_T1T2map :: "'k \<rightharpoonup> addr"
  m_T1Queue :: "addr list"
  m_T2Queue :: "addr list"
  m_numShort :: int
  m_numLong :: int
  m_usedMemory :: "64 word"
  m_B1B2map :: "('k \<times> addr) list"
  m_B1List :: "addr list"
  m_B1ListSize :: int
  m_B2List :: "addr list"
  m_B2ListSize :: int
  m_interface :: "'k ICacheControl"
  m_maxNumElements :: nat
  m_maxUsedMemory :: "64 word"
  m_usage :: "64 word \<rightharpoonup> 32 word"
  heap :: "addr \<Rightarrow> 'k CLOCKElement"
  heap_next :: addr
  released :: "('k \<times> ptr) list"

record 'k Handle =
  m_cache :: bool
  m_key :: 'k
  m_value :: ptr

definition nullptr :: nat where
  "nullptr = 0"

subsection \<open>The usage map\<close>

definition IncUsage :: "'k Cache \<Rightarrow> 'k \<Rightarrow> ptr \<Rightarrow> 'k Cache" where
  "IncUsage s key v =
     (let id = UsageId (m_interface s) key v
      in s\<lparr>m_usage := (m_usage s)(id \<mapsto> (case m_usage s id of Some n \<Rightarrow> n + 1 | None \<Rightarrow> 1))\<rparr>)"

text \<open>
  The loop of \<open>DecUsage\<close>: with \<open>waitForLast\<close> and a count above one it releases the
  accessor and tries again (yielding after 100 tries), until another thread has dropped
  its handle. \<open>tries\<close> is the local counter.
\<close>

partial_function (option) DecUsage_loop ::
    "'k Cache \<Rightarrow> 'k \<Rightarrow> ptr \<Rightarrow> bool \<Rightarrow> int \<Rightarrow> (bool \<times> 'k Cache) option" where
  "DecUsage_loop s key v waitForLast tries =
     (let id = UsageId (m_interface s) key v
      in case m_usage s id of
           None \<Rightarrow> Some (False, s)
         | Some n \<Rightarrow>
             if waitForLast \<and> n > 1 then DecUsage_loop s key v waitForLast (tries + 1)
             else if n - 1 = 0
               then Some (True, s\<lparr>m_usage := (m_usage s)(id := None),
                                  released := released s @ [(key, v)]\<rparr>)
               else Some (False, s\<lparr>m_usage := (m_usage s)(id \<mapsto> n - 1)\<rparr>))"

definition DecUsage :: "'k Cache \<Rightarrow> 'k \<Rightarrow> ptr \<Rightarrow> bool \<Rightarrow> (bool \<times> 'k Cache) option" where
  "DecUsage s key v waitForLast = DecUsage_loop s key v waitForLast 0"

definition GetUsage :: "'k Cache \<Rightarrow> 'k \<Rightarrow> ptr \<Rightarrow> 32 word" where
  "GetUsage s key v =
     (case m_usage s (UsageId (m_interface s) key v) of Some n \<Rightarrow> n | None \<Rightarrow> 0)"

subsection \<open>Handles\<close>

text \<open>
  Every handle operation returns the handle and the cache after it. \<open>cache\<close> says
  whether the \<^verbatim>\<open>Cache*\<close> given to the constructor is non-null.
\<close>

definition Handle_ctor :: "'k Cache \<Rightarrow> bool \<Rightarrow> 'k \<Rightarrow> ptr \<Rightarrow> 'k Handle \<times> 'k Cache" where
  "Handle_ctor s cache key v =
     (\<lparr>m_cache = cache, m_key = key, m_value = v\<rparr>,
      if cache \<and> v \<noteq> nullptr then IncUsage s key v else s)"

definition Handle_empty :: "'k \<Rightarrow> 'k Handle" where
  "Handle_empty k = \<lparr>m_cache = False, m_key = k, m_value = nullptr\<rparr>"

definition Handle_copy :: "'k Cache \<Rightarrow> 'k Handle \<Rightarrow> 'k Handle \<times> 'k Cache" where
  "Handle_copy s op =
     (\<lparr>m_cache = m_cache op, m_key = m_key op, m_value = m_value op\<rparr>,
      if m_cache op \<and> m_value op \<noteq> nullptr then IncUsage s (m_key op) (m_value op) else s)"

text \<open>\<open>Release\<close> returns, with the handle and the cache, whether \<^verbatim>\<open>assert(!isZero)\<close> held.\<close>

definition Handle_Release :: "'k Cache \<Rightarrow> 'k Handle \<Rightarrow> (bool \<times> 'k Handle \<times> 'k Cache) option" where
  "Handle_Release s h =
     (if m_cache h \<and> m_value h \<noteq> nullptr
      then (case DecUsage s (m_key h) (m_value h) False of
              None \<Rightarrow> None
            | Some (isZero, s') \<Rightarrow> Some (\<not> isZero, h\<lparr>m_value := nullptr\<rparr>, s'))
      else Some (True, h, s))"

definition Handle_dtor :: "'k Cache \<Rightarrow> 'k Handle \<Rightarrow> (bool \<times> 'k Cache) option" where
  "Handle_dtor s h =
     (case Handle_Release s h of None \<Rightarrow> None | Some (ok, _, s') \<Rightarrow> Some (ok, s'))"

text \<open>
  The assignment operators take their operand by reference, and it may be the handle that
  is assigned to. For them the handles are in a store \<open>H\<close>, from the addresses of the
  handle objects, \<open>this\<close> and \<open>op\<close> are addresses, and the fields of \<open>op\<close> are read where
  the source reads them: after \<open>Release\<close> has run on \<open>this\<close>.
\<close>

definition Handle_assign ::
    "'k Cache \<Rightarrow> (addr \<Rightarrow> 'k Handle) \<Rightarrow> addr \<Rightarrow> addr
       \<Rightarrow> (bool \<times> (addr \<Rightarrow> 'k Handle) \<times> 'k Cache) option" where
  "Handle_assign s H this op =
     (case Handle_Release s (H this) of
        None \<Rightarrow> None
      | Some (ok, h, s') \<Rightarrow>
          (let H1 = H(this := h);
               H2 = H1(this := \<lparr>m_cache = m_cache (H1 op), m_key = m_key (H1 op),
                                m_value = m_value (H1 op)\<rparr>)
           in Some (ok, H2,
                    if m_cache (H2 this) \<and> m_value (H2 this) \<noteq> nullptr
                    then IncUsage s' (m_key (H2 this)) (m_value (H2 this)) else s')))"

definition Handle_move_assign ::
    "'k Cache \<Rightarrow> (addr \<Rightarrow> 'k Handle) \<Rightarrow> addr \<Rightarrow> addr
       \<Rightarrow> (bool \<times> (addr \<Rightarrow> 'k Handle) \<times> 'k Cache) option" where
  "Handle_move_assign s H this op =
     (case Handle_Release s (H this) of
        None \<Rightarrow> None
      | Some (ok, h, s') \<Rightarrow>
          (let H1 = H(this := h);
               H2 = H1(this := \<lparr>m_cache = m_cache (H1 op), m_key = m_key (H1 op),
                                m_value = m_value (H1 op)\<rparr>);
               H3 = H2(op := (H2 op)\<lparr>m_cache := False, m_value := nullptr\<rparr>)
           in Some (ok, H3, s')))"

subsection \<open>Construction, Clear, IsFull\<close>

text \<open>
  The constructor stores the two limits and calls \<open>Clear\<close> on the empty containers, which
  leaves the state below. Nothing is allocated yet: address \<open>0\<close> is the null element pointer.
\<close>

definition Cache_ctor :: "'k ICacheControl \<Rightarrow> nat \<Rightarrow> 64 word \<Rightarrow> 'k Cache" where
  "Cache_ctor interface maxNumElements maxUsedMemory =
     \<lparr>m_p = 0, m_q = 0, m_T1T2map = Map.empty, m_T1Queue = [], m_T2Queue = [],
      m_numShort = 0, m_numLong = 0, m_usedMemory = 0, m_B1B2map = [], m_B1List = [],
      m_B1ListSize = 0, m_B2List = [], m_B2ListSize = 0, m_interface = interface,
      m_maxNumElements = maxNumElements, m_maxUsedMemory = maxUsedMemory,
      m_usage = Map.empty, heap = (\<lambda>a. undefined), heap_next = 1, released = []\<rparr>"

text \<open>The two loops of \<open>Clear\<close> over the resident queues: each entry drops the cache's
  count on its value, waiting for the last handle.\<close>

fun Clear_queue :: "'k Cache \<Rightarrow> addr list \<Rightarrow> 'k Cache option" where
  "Clear_queue s [] = Some s"
| "Clear_queue s (a # as) =
     (case DecUsage s (pageKey (heap s a)) (page (heap s a)) True of
        None \<Rightarrow> None
      | Some (_, s') \<Rightarrow> Clear_queue s' as)"

definition Clear :: "'k Cache \<Rightarrow> 'k Cache option" where
  "Clear s =
     (case Clear_queue s (m_T1Queue s) of
        None \<Rightarrow> None
      | Some s1 \<Rightarrow>
         (case Clear_queue (s1\<lparr>m_T1Queue := []\<rparr>) (m_T2Queue s1) of
            None \<Rightarrow> None
          | Some s2 \<Rightarrow>
              Some (s2\<lparr>m_T2Queue := [], m_B1List := [], m_B1ListSize := 0,
                       m_B2List := [], m_B2ListSize := 0, m_p := 0, m_q := 0,
                       m_numShort := 0, m_numLong := 0, m_usedMemory := 0,
                       m_T1T2map := Map.empty, m_B1B2map := []\<rparr>)))"

definition IsFull :: "'k Cache \<Rightarrow> bool" where
  "IsFull s \<longleftrightarrow>
     (m_maxNumElements s \<noteq> 0 \<and> length (m_T1Queue s) + length (m_T2Queue s) \<ge> m_maxNumElements s)
     \<or> (m_maxUsedMemory s \<noteq> 0 \<and> m_usedMemory s \<ge> m_maxUsedMemory s)"

subsection \<open>InternalInsert: the clock sweeps\<close>

text \<open>
  In the blocks of \<open>InternalInsert\<close> below, \<open>c\<close> is the local variable
  \<^verbatim>\<open>maxNumElements\<close> (an \<^verbatim>\<open>unsigned __int64\<close>) and \<open>key\<close> the key being inserted.
\<close>

text \<open>The adaptation of \<open>m_q\<close> after a page has moved to \<open>T1\<close> (lines 330-331 and 543-547).\<close>

definition adapt_q :: "nat \<Rightarrow> 'k Cache \<Rightarrow> 'k Cache" where
  "adapt_q c s =
     (if u64 (i32 (int (length (m_T2Queue s))) + m_B2ListSize s
              + i32 (int (length (m_T1Queue s))) - m_numShort s) \<ge> int c
      then s\<lparr>m_q := Min_T (m_q s + 1) (i32 (u64 (2 * int c - int (length (m_T1Queue s)))))\<rparr>
      else s)"

definition T2_cond :: "'k Cache \<Rightarrow> bool" where
  "T2_cond s \<longleftrightarrow> m_T2Queue s \<noteq> [] \<and> referenceBit (heap s (hd (m_T2Queue s)))"

definition T2_step :: "nat \<Rightarrow> 'k Cache \<Rightarrow> 'k Cache" where
  "T2_step c s =
     (let a = hd (m_T2Queue s)
      in adapt_q c
           (s\<lparr>m_T1Queue := m_T1Queue s @ [a], m_T2Queue := tl (m_T2Queue s),
              heap := (heap s)(a := (heap s a)\<lparr>referenceBit := False, firstList := True\<rparr>)\<rparr>))"

function sweepT2 :: "nat \<Rightarrow> 'k Cache \<Rightarrow> 'k Cache" where
  "sweepT2 c s = (if T2_cond s then sweepT2 c (T2_step c s) else s)"
  by pat_completeness auto
termination
  by (relation "measure (\<lambda>(c, s). length (m_T2Queue s))")
     (auto simp: T2_cond_def T2_step_def adapt_q_def Let_def)

definition T1_cond :: "'k Cache \<Rightarrow> bool" where
  "T1_cond s \<longleftrightarrow>
     length (m_T1Queue s) \<noteq> 0
     \<and> (longBit (heap s (hd (m_T1Queue s))) \<or> referenceBit (heap s (hd (m_T1Queue s))))"

definition T1_step :: "nat \<Rightarrow> 'k Cache \<Rightarrow> 'k Cache" where
  "T1_step c s =
     (let a = hd (m_T1Queue s)
      in if referenceBit (heap s a)
         then
           (let s1 = s\<lparr>m_T1Queue := tl (m_T1Queue s) @ [a],
                       heap := (heap s)(a := (heap s a)\<lparr>referenceBit := False\<rparr>)\<rparr>
            in if int (length (m_T1Queue s1)) \<ge> Min_T (u32 (u32 (m_p s1) + 1)) (u32 (m_B1ListSize s1))
                  \<and> \<not> longBit (heap s1 a)
               then s1\<lparr>heap := (heap s1)(a := (heap s1 a)\<lparr>longBit := True\<rparr>),
                       m_numShort := m_numShort s1 - 1, m_numLong := m_numLong s1 + 1\<rparr>
               else s1)
         else
           (let s1 = s\<lparr>m_T1Queue := tl (m_T1Queue s), m_T2Queue := m_T2Queue s @ [a],
                       heap := (heap s)(a := (heap s a)\<lparr>referenceBit := False, firstList := False\<rparr>)\<rparr>
            in s1\<lparr>m_q := Max_T (m_q s1 - 1) (i32 (u64 (int c - int (length (m_T1Queue s1)))))\<rparr>))"

definition T1_measure :: "'k Cache \<Rightarrow> nat" where
  "T1_measure s =
     length (filter (\<lambda>a. referenceBit (heap s a)) (m_T1Queue s)) + length (m_T1Queue s)"

lemma length_filter_mono:
  "(\<And>x. x \<in> set xs \<Longrightarrow> Q x \<Longrightarrow> P x) \<Longrightarrow> length (filter Q xs) \<le> length (filter P xs)"
  by (induction xs) auto

lemma T1_step_decreases: "T1_cond s \<Longrightarrow> T1_measure (T1_step c s) < T1_measure s"
proof -
  assume cond: "T1_cond s"
  then obtain a rest where T1: "m_T1Queue s = a # rest"
    by (cases "m_T1Queue s") (auto simp: T1_cond_def)
  show ?thesis
  proof (cases "referenceBit (heap s a)")
    case True
    then show ?thesis
      using T1 by (auto simp: T1_step_def T1_measure_def Let_def intro!: le_imp_less_Suc length_filter_mono)
  next
    case False
    have "length (filter (\<lambda>x. x \<noteq> a \<and> referenceBit (heap s x)) rest)
          \<le> length (filter (\<lambda>x. referenceBit (heap s x)) rest)"
      by (rule length_filter_mono) simp
    then show ?thesis
      using False T1 by (auto simp: T1_step_def T1_measure_def Let_def intro!: le_imp_less_Suc length_filter_mono)
  qed
qed

function sweepT1 :: "nat \<Rightarrow> 'k Cache \<Rightarrow> 'k Cache" where
  "sweepT1 c s = (if T1_cond s then sweepT1 c (T1_step c s) else s)"
  by pat_completeness auto
termination
  by (relation "measure (\<lambda>(c, s). T1_measure s)") (auto simp: T1_step_decreases)

subsection \<open>InternalInsert: demotion, history replacement, installation\<close>

text \<open>
  The two searches of the demotion walk a queue from its head and stop at the first entry
  whose usage count is not above one; \<^const>\<open>List.extract\<close> returns the entries before
  it, the entry and the entries after it, or \<open>None\<close> for \<^verbatim>\<open>end()\<close>.
\<close>

definition unpinned :: "'k Cache \<Rightarrow> addr \<Rightarrow> bool" where
  "unpinned s a \<longleftrightarrow> \<not> GetUsage s (pageKey (heap s a)) (page (heap s a)) > 1"

text \<open>\<^verbatim>\<open>unordered_map::insert\<close> keeps an entry that is already there.\<close>

definition B1B2map_insert :: "'k \<Rightarrow> addr \<Rightarrow> ('k \<times> addr) list \<Rightarrow> ('k \<times> addr) list" where
  "B1B2map_insert k a m = (if map_of m k = None then (k, a) # m else m)"

definition B1B2map_erase :: "'k \<Rightarrow> ('k \<times> addr) list \<Rightarrow> ('k \<times> addr) list" where
  "B1B2map_erase k m = filter (\<lambda>(k', a). k' \<noteq> k) m"

text \<open>What both branches of the demotion do once the victim has left its queue and
  the counters are adjusted: the usage count is dropped, the bytes are subtracted and
  the key leaves the resident index.\<close>

definition evict :: "'k Cache \<Rightarrow> addr \<Rightarrow> 'k Cache option" where
  "evict s a =
     (let e = heap s a
      in case DecUsage s (pageKey e) (page e) True of
           None \<Rightarrow> None
         | Some (_, s') \<Rightarrow>
             Some (s'\<lparr>m_usedMemory := m_usedMemory s' - CacheGetValueSize (m_interface s') (page e),
                      m_T1T2map := (m_T1T2map s')(pageKey e := None)\<rparr>))"

definition demote :: "'k Cache \<Rightarrow> 'k Cache option" where
  "demote s =
     (let demoteT1 = (if int (length (m_T1Queue s)) \<ge> Max_T 1 (u32 (m_p s))
                      then List.extract (unpinned s) (m_T1Queue s) else None);
          demoteT2 = (if demoteT1 = None
                      then List.extract (unpinned s) (m_T2Queue s) else None)
      in case demoteT1 of
           Some (before, a, after) \<Rightarrow>
             evict (s\<lparr>m_T1Queue := before @ after,
                      m_numLong := (if longBit (heap s a) then m_numLong s - 1 else m_numLong s),
                      m_numShort := (if longBit (heap s a) then m_numShort s else m_numShort s - 1),
                      m_B1List := a # m_B1List s,
                      m_B1ListSize := m_B1ListSize s + 1,
                      m_B1B2map := B1B2map_insert (pageKey (heap s a)) a (m_B1B2map s)\<rparr>) a
         | None \<Rightarrow>
            (case demoteT2 of
               Some (before, a, after) \<Rightarrow>
                 evict (s\<lparr>m_T2Queue := before @ after,
                          m_numLong := m_numLong s - 1,
                          m_B2List := a # m_B2List s,
                          m_B2ListSize := m_B2ListSize s + 1,
                          m_B1B2map := B1B2map_insert (pageKey (heap s a)) a (m_B1B2map s)\<rparr>) a
             | None \<Rightarrow> Some s))"

text \<open>History replacement (lines 444-466). \<^verbatim>\<open>back()\<close> of an empty list is undefined.\<close>

definition history_cond :: "nat \<Rightarrow> 'k \<Rightarrow> 'k Cache \<Rightarrow> bool" where
  "history_cond c key s \<longleftrightarrow>
     map_of (m_B1B2map s) key = None
     \<and> u64 (i32 (int (length (m_B1B2map s)))) \<ge> u64 (int c + 1)"

definition history_replace :: "nat \<Rightarrow> 'k \<Rightarrow> 'k Cache \<Rightarrow> 'k Cache option" where
  "history_replace c key s =
     (if history_cond c key s
      then
        if m_B1ListSize s > Max_T 0 (m_q s) \<or> m_B2ListSize s = 0
        then
          (if m_B1List s = [] then None
           else Some (s\<lparr>m_B1List := butlast (m_B1List s),
                        m_B1ListSize := m_B1ListSize s - 1,
                        m_B1B2map := B1B2map_erase (pageKey (heap s (last (m_B1List s)))) (m_B1B2map s)\<rparr>))
        else if m_B2ListSize s > 0
        then
          (if m_B2List s = [] then None
           else Some (s\<lparr>m_B2List := butlast (m_B2List s),
                        m_B2ListSize := m_B2ListSize s - 1,
                        m_B1B2map := B1B2map_erase (pageKey (heap s (last (m_B2List s)))) (m_B1B2map s)\<rparr>))
        else Some s
      else Some s)"

text \<open>The block under \<^verbatim>\<open>if (IsFull())\<close>, after \<open>c\<close> has been captured.\<close>

definition replace_page :: "nat \<Rightarrow> 'k \<Rightarrow> 'k Cache \<Rightarrow> 'k Cache option" where
  "replace_page c key s =
     (case demote (sweepT1 c (sweepT2 c s)) of
        None \<Rightarrow> None
      | Some s' \<Rightarrow> history_replace c key s')"

text \<open>
  Lines 469-549: a history miss allocates a Short element at the tail of \<open>T1\<close>; a history
  hit turns the ghost element into a Long one there. The iterator kept beside the ghost
  element addresses the list node that holds it, so erasing it removes that element's
  occurrence from the list.
\<close>

definition install :: "nat \<Rightarrow> 'k \<Rightarrow> ptr \<Rightarrow> 'k Cache \<Rightarrow> 'k Cache" where
  "install c key v s =
     (case map_of (m_B1B2map s) key of
        None \<Rightarrow>
          (let a = heap_next s
           in s\<lparr>heap := (heap s)(a := \<lparr>pageKey = key, page = v, referenceBit = False,
                                        longBit = False, firstList = True\<rparr>),
                 heap_next := Suc a,
                 m_numShort := m_numShort s + 1,
                 m_T1T2map := (m_T1T2map s)(key \<mapsto> a),
                 m_T1Queue := m_T1Queue s @ [a]\<rparr>)
      | Some g \<Rightarrow>
          if firstList (heap s g)
          then
            s\<lparr>m_p := Min_T (m_p s + Max_T 1 (if m_B1ListSize s \<noteq> 0
                                               then int_div (m_numShort s) (m_B1ListSize s) else 0))
                          (i32 (int c)),
              heap := (heap s)(g := (heap s g)\<lparr>page := v, referenceBit := False, longBit := True\<rparr>),
              m_numLong := m_numLong s + 1,
              m_T1T2map := (m_T1T2map s)(key \<mapsto> g),
              m_T1Queue := m_T1Queue s @ [g],
              m_B1List := remove1 g (m_B1List s),
              m_B1ListSize := m_B1ListSize s - 1,
              m_B1B2map := B1B2map_erase key (m_B1B2map s)\<rparr>
          else
            adapt_q c
              (s\<lparr>m_p := Max_T (m_p s - Max_T 1 (if m_B2ListSize s \<noteq> 0
                                                  then int_div (m_numLong s) (m_B2ListSize s) else 0)) 0,
                 heap := (heap s)(g := (heap s g)\<lparr>page := v, firstList := True,
                                                   referenceBit := False, longBit := True\<rparr>),
                 m_numLong := m_numLong s + 1,
                 m_T1T2map := (m_T1T2map s)(key \<mapsto> g),
                 m_T1Queue := m_T1Queue s @ [g],
                 m_B2List := remove1 g (m_B2List s),
                 m_B2ListSize := m_B2ListSize s - 1,
                 m_B1B2map := B1B2map_erase key (m_B1B2map s)\<rparr>))"

subsection \<open>InternalInsert\<close>

text \<open>The local \<^verbatim>\<open>maxNumElements\<close>: the configured limit, replaced by the resident
  count when the cache is full.\<close>

definition effective_capacity :: "'k Cache \<Rightarrow> nat" where
  "effective_capacity s =
     (if IsFull s then length (m_T1Queue s) + length (m_T2Queue s) else m_maxNumElements s)"

text \<open>
  \<open>acquired\<close> is the pointer \<^verbatim>\<open>CacheAcquireValue(key)\<close> returns if it is called.
  \<^verbatim>\<open>m_T1T2map.insert\<close> adds the key with a null element pointer, which the installation
  overwrites.
\<close>

definition InternalInsert ::
    "'k Cache \<Rightarrow> 'k \<Rightarrow> ptr \<Rightarrow> ptr \<Rightarrow> ('k Handle \<times> 'k Cache) option" where
  "InternalInsert s key v acquired =
     (case m_T1T2map s key of
        Some a \<Rightarrow> Some (Handle_ctor s True key (page (heap s a)))
      | None \<Rightarrow>
          (let s0 = s\<lparr>m_T1T2map := (m_T1T2map s)(key \<mapsto> 0)\<rparr>;
               v' = (if v = nullptr then acquired else v);
               s1 = IncUsage s0 key v';
               c = effective_capacity s1
           in case (if IsFull s1 then replace_page c key s1 else Some s1) of
                None \<Rightarrow> None
              | Some s2 \<Rightarrow>
                  (let s3 = install c key v' s2;
                       s4 = s3\<lparr>m_usedMemory :=
                                m_usedMemory s3 + CacheGetValueSize (m_interface s3) v'\<rparr>
                   in Some (Handle_ctor s4 True key v'))))"

subsection \<open>The public operations\<close>

definition FindOrCreate :: "'k Cache \<Rightarrow> 'k \<Rightarrow> ptr \<Rightarrow> ('k Handle \<times> 'k Cache) option" where
  "FindOrCreate s key acquired =
     (case m_T1T2map s key of
        Some a \<Rightarrow>
          (let s1 = s\<lparr>heap := (heap s)(a := (heap s a)\<lparr>referenceBit := True\<rparr>)\<rparr>
           in Some (Handle_ctor s1 True key (page (heap s1 a))))
      | None \<Rightarrow> InternalInsert s key nullptr acquired)"

definition IsInCache :: "'k Cache \<Rightarrow> 'k \<Rightarrow> 'k Handle \<times> 'k Cache" where
  "IsInCache s key =
     (case m_T1T2map s key of
        Some a \<Rightarrow> Handle_ctor s True key (page (heap s a))
      | None \<Rightarrow> (Handle_empty key, s))"

definition InsertIntoCache :: "'k Cache \<Rightarrow> 'k \<Rightarrow> ptr \<Rightarrow> ptr \<Rightarrow> ('k Handle \<times> 'k Cache) option" where
  "InsertIntoCache s key v acquired = InternalInsert s key v acquired"

text \<open>
  \<open>RemoveFromCache\<close> and \<open>InternalRemove\<close> have no definition here. \<open>InternalRemove\<close> calls
  \<^verbatim>\<open>DecUsage(element->pageKey, element->page)\<close> (line 607) with two
  arguments of a member function that has three parameters and no default argument
  (line 629). The body is ill-formed for every \<open>KEY\<close> and \<open>VALUE\<close>, a program that calls
  \<open>RemoveFromCache\<close> is rejected when the template is instantiated, and so no run of the
  cache contains such a call.
\<close>

subsection \<open>Sequences of operations\<close>

text \<open>
  What a client can do to a cache, one call at a time. The handle an operation returns
  stays with the client; copying and releasing a handle are operations of their own.
  \<open>Op_FindOrCreate_temporary\<close> is a lookup whose handle is a temporary: the handle that
  \<open>FindOrCreate\<close> returns is destroyed at the end of the statement.
  \<open>run\<close> is \<open>None\<close> when a call of the sequence does not return.
\<close>

datatype 'k operation =
    Op_FindOrCreate 'k ptr
  | Op_FindOrCreate_temporary 'k ptr
  | Op_IsInCache 'k
  | Op_InsertIntoCache 'k ptr ptr
  | Op_Clear
  | Op_Handle_copy "'k Handle"
  | Op_Handle_Release "'k Handle"

fun apply_op :: "'k Cache \<Rightarrow> 'k operation \<Rightarrow> 'k Cache option" where
  "apply_op s (Op_FindOrCreate key acquired) = map_option snd (FindOrCreate s key acquired)"
| "apply_op s (Op_FindOrCreate_temporary key acquired) =
     (case FindOrCreate s key acquired of
        None \<Rightarrow> None
      | Some (h, s') \<Rightarrow> map_option snd (Handle_dtor s' h))"
| "apply_op s (Op_IsInCache key) = Some (snd (IsInCache s key))"
| "apply_op s (Op_InsertIntoCache key v acquired) = map_option snd (InsertIntoCache s key v acquired)"
| "apply_op s Op_Clear = Clear s"
| "apply_op s (Op_Handle_copy h) = Some (snd (Handle_copy s h))"
| "apply_op s (Op_Handle_Release h) = map_option (\<lambda>(ok, h', s'). s') (Handle_Release s h)"

fun run :: "'k Cache \<Rightarrow> 'k operation list \<Rightarrow> 'k Cache option" where
  "run s [] = Some s"
| "run s (x # xs) = (case apply_op s x of None \<Rightarrow> None | Some s' \<Rightarrow> run s' xs)"

text \<open>The loader of the test program: every value has four bytes. The usage row is
  an injective stand-in for the hash, for keys and pointers below 1024.\<close>

definition CacheImpl :: "nat ICacheControl" where
  "CacheImpl = \<lparr>CacheGetValueSize = (\<lambda>v. 4), UsageId = (\<lambda>key v. word_of_nat (key * 1024 + v))\<rparr>"

text \<open>\<^verbatim>\<open>{ auto handle = cache[key]; }\<close>: a lookup whose handle is destroyed at once.\<close>

definition touch :: "'k \<Rightarrow> ptr \<Rightarrow> 'k operation list" where
  "touch key acquired = [Op_FindOrCreate_temporary key acquired]"

section \<open>Auxiliary facts\<close>

declare sweepT2.simps [simp del] sweepT1.simps [simp del]

subsection \<open>DecUsage returns unless it has to wait\<close>

definition dec_row :: "'k Cache \<Rightarrow> 'k \<Rightarrow> ptr \<Rightarrow> bool \<times> 'k Cache" where
  "dec_row s key v =
     (let id = UsageId (m_interface s) key v
      in case m_usage s id of
           None \<Rightarrow> (False, s)
         | Some n \<Rightarrow>
             if n = 1
             then (True, s\<lparr>m_usage := (m_usage s)(id := None), released := released s @ [(key, v)]\<rparr>)
             else (False, s\<lparr>m_usage := (m_usage s)(id \<mapsto> n - 1)\<rparr>))"

definition waits :: "'k Cache \<Rightarrow> 'k \<Rightarrow> ptr \<Rightarrow> bool \<Rightarrow> bool" where
  "waits s key v waitForLast \<longleftrightarrow> waitForLast \<and> GetUsage s key v > 1"

lemma DecUsage_loop_Some:
  assumes "DecUsage_loop s key v w t = Some y"
  shows "\<not> waits s key v w \<and> y = dec_row s key v"
  by (rule DecUsage_loop.raw_induct
        [where P = "\<lambda>s key v w t y. \<not> waits s key v w \<and> y = dec_row s key v", OF _ assms])
     (fastforce simp: waits_def dec_row_def GetUsage_def Let_def split: option.splits if_splits)

lemma DecUsage_loop_returns:
  "\<not> waits s key v w \<Longrightarrow> DecUsage_loop s key v w t = Some (dec_row s key v)"
  by (subst DecUsage_loop.simps)
     (auto simp: waits_def dec_row_def GetUsage_def Let_def split: option.splits)

lemma DecUsage_eq:
  "DecUsage s key v w = (if waits s key v w then None else Some (dec_row s key v))"
proof (cases "DecUsage s key v w")
  case None
  then show ?thesis using DecUsage_loop_returns[of s key v w 0] by (auto simp: DecUsage_def)
next
  case (Some y)
  then show ?thesis using DecUsage_loop_Some[of s key v w 0 y] by (auto simp: DecUsage_def)
qed

subsection \<open>The counters match the queues\<close>

definition count_inv :: "'k Cache \<Rightarrow> bool" where
  "count_inv s \<longleftrightarrow>
     m_numShort s + m_numLong s = int (length (m_T1Queue s)) + int (length (m_T2Queue s))"

definition usage_only :: "'k Cache \<Rightarrow> 'k Cache \<Rightarrow> bool" where
  "usage_only s s' \<longleftrightarrow> s' = s\<lparr>m_usage := m_usage s', released := released s'\<rparr>"

lemma usage_onlyE:
  assumes "usage_only s s'"
  obtains u r where "s' = s\<lparr>m_usage := u, released := r\<rparr>"
  using assms unfolding usage_only_def by blast

lemma usage_only_refl [simp]: "usage_only s s"
  by (simp add: usage_only_def)

lemma usage_only_trans: "usage_only s s' \<Longrightarrow> usage_only s' s'' \<Longrightarrow> usage_only s s''"
  by (elim usage_onlyE) (simp add: usage_only_def)

lemma usage_only_dec_row: "usage_only s (snd (dec_row s key v))"
  by (simp add: usage_only_def dec_row_def Let_def split: option.splits)

lemma usage_only_DecUsage: "DecUsage s key v w = Some (b, s') \<Longrightarrow> usage_only s s'"
  using usage_only_dec_row[of s key v] by (auto simp: DecUsage_eq split: if_splits)

lemma DecUsage_shape:
  assumes "DecUsage s key v w = Some (b, s')"
  obtains u r where "s' = s\<lparr>m_usage := u, released := r\<rparr>"
  using usage_only_DecUsage[OF assms] by (rule usage_onlyE)

lemma usage_only_IncUsage: "usage_only s (IncUsage s key v)"
  by (simp add: usage_only_def IncUsage_def Let_def)

lemma IncUsage_shape: "\<exists>u. IncUsage s key v = s\<lparr>m_usage := u\<rparr>"
  by (auto simp: IncUsage_def Let_def)

lemma count_inv_usage [simp]: "count_inv (s\<lparr>m_usage := u, released := r\<rparr>) = count_inv s"
  "count_inv (s\<lparr>m_usage := u\<rparr>) = count_inv s"
  by (simp_all add: count_inv_def)

lemma count_inv_T2_step: "T2_cond s \<Longrightarrow> count_inv s \<Longrightarrow> count_inv (T2_step c s)"
  by (cases "m_T2Queue s") (auto simp: T2_cond_def T2_step_def adapt_q_def count_inv_def Let_def)

lemma count_inv_sweepT2: "count_inv s \<Longrightarrow> count_inv (sweepT2 c s)"
  by (induction c s rule: sweepT2.induct) (subst sweepT2.simps, simp add: count_inv_T2_step)

lemma count_inv_T1_step: "T1_cond s \<Longrightarrow> count_inv s \<Longrightarrow> count_inv (T1_step c s)"
  by (cases "m_T1Queue s") (auto simp: T1_cond_def T1_step_def count_inv_def Let_def)

lemma count_inv_sweepT1: "count_inv s \<Longrightarrow> count_inv (sweepT1 c s)"
  by (induction c s rule: sweepT1.induct) (subst sweepT1.simps, simp add: count_inv_T1_step)

lemma evict_shape:
  assumes "evict s a = Some s'"
  obtains u r where
    "s' = s\<lparr>m_usage := u, released := r,
            m_usedMemory := m_usedMemory s - CacheGetValueSize (m_interface s) (page (heap s a)),
            m_T1T2map := (m_T1T2map s)(pageKey (heap s a) := None)\<rparr>"
  using assms
  by (auto simp: evict_def Let_def split: option.splits elim!: DecUsage_shape)

lemma count_inv_demote: "demote s = Some s' \<Longrightarrow> count_inv s \<Longrightarrow> count_inv s'"
  unfolding demote_def Let_def
  by (auto split: option.splits if_splits dest!: extract_SomeE
        elim!: evict_shape simp: count_inv_def)

lemma count_inv_history_replace:
  "history_replace c key s = Some s' \<Longrightarrow> count_inv s \<Longrightarrow> count_inv s'"
  by (auto simp: history_replace_def count_inv_def split: if_splits)

lemma count_inv_replace_page:
  "replace_page c key s = Some s' \<Longrightarrow> count_inv s \<Longrightarrow> count_inv s'"
  unfolding replace_page_def
  by (simp split: option.splits)
     (metis count_inv_history_replace count_inv_demote count_inv_sweepT1 count_inv_sweepT2)

lemma count_inv_install: "count_inv s \<Longrightarrow> count_inv (install c key v s)"
  by (auto simp: install_def count_inv_def adapt_q_def Let_def split: option.splits)

lemma Handle_ctor_shape: "\<exists>u. snd (Handle_ctor s c key v) = s\<lparr>m_usage := u\<rparr>"
proof -
  have "snd (Handle_ctor s c key v) = s\<lparr>m_usage := m_usage (snd (Handle_ctor s c key v))\<rparr>"
    by (simp add: Handle_ctor_def IncUsage_def Let_def)
  then show ?thesis by blast
qed

lemma count_inv_Handle_ctor: "count_inv (snd (Handle_ctor s c key v)) = count_inv s"
  using Handle_ctor_shape[of s c key v] by auto

lemma count_inv_IncUsage: "count_inv (IncUsage s key v) = count_inv s"
  using IncUsage_shape[of s key v] by auto

lemma InternalInsert_hit:
  "m_T1T2map s key = Some a \<Longrightarrow>
   InternalInsert s key v acquired = Some (Handle_ctor s True key (page (heap s a)))"
  by (simp add: InternalInsert_def)

lemma InternalInsert_missE:
  assumes "InternalInsert s key v acquired = Some (h, s')" and "m_T1T2map s key = None"
  obtains s1 s2 v' where
    "v' = (if v = nullptr then acquired else v)"
    "s1 = IncUsage (s\<lparr>m_T1T2map := (m_T1T2map s)(key \<mapsto> 0)\<rparr>) key v'"
    "(if IsFull s1 then replace_page (effective_capacity s1) key s1 else Some s1) = Some s2"
    "(h, s') = Handle_ctor ((install (effective_capacity s1) key v' s2)
       \<lparr>m_usedMemory := m_usedMemory (install (effective_capacity s1) key v' s2)
            + CacheGetValueSize (m_interface (install (effective_capacity s1) key v' s2)) v'\<rparr>)
       True key v'"
  using assms unfolding InternalInsert_def Let_def
  by (simp split: option.splits)

lemma count_inv_InternalInsert:
  assumes "InternalInsert s key v acquired = Some (h, s')" and "count_inv s"
  shows "count_inv s'"
proof (cases "m_T1T2map s key")
  case (Some a)
  then show ?thesis
    using assms count_inv_Handle_ctor[of s True key "page (heap s a)"]
    by (auto simp: InternalInsert_hit)
next
  case None
  from assms(1) None obtain s1 s2 v' where
    s1: "s1 = IncUsage (s\<lparr>m_T1T2map := (m_T1T2map s)(key \<mapsto> 0)\<rparr>) key v'"
    and s2: "(if IsFull s1 then replace_page (effective_capacity s1) key s1 else Some s1) = Some s2"
    and res: "(h, s') = Handle_ctor ((install (effective_capacity s1) key v' s2)
       \<lparr>m_usedMemory := m_usedMemory (install (effective_capacity s1) key v' s2)
            + CacheGetValueSize (m_interface (install (effective_capacity s1) key v' s2)) v'\<rparr>)
       True key v'"
    by (rule InternalInsert_missE)
  have "count_inv s1"
    using assms(2) by (simp add: s1 count_inv_IncUsage) (simp add: count_inv_def)
  then have "count_inv s2"
    using s2 by (auto split: if_splits intro: count_inv_replace_page)
  then have "count_inv ((install (effective_capacity s1) key v' s2)
       \<lparr>m_usedMemory := m_usedMemory (install (effective_capacity s1) key v' s2)
            + CacheGetValueSize (m_interface (install (effective_capacity s1) key v' s2)) v'\<rparr>)"
    using count_inv_install[of s2 "effective_capacity s1" key v'] by (simp add: count_inv_def)
  then show ?thesis
    using res count_inv_Handle_ctor by (metis snd_conv)
qed

lemma usage_only_Clear_queue: "Clear_queue s xs = Some s' \<Longrightarrow> usage_only s s'"
proof (induction xs arbitrary: s)
  case Nil
  then show ?case by simp
next
  case (Cons a xs)
  then show ?case
    by (auto split: option.splits intro: usage_only_trans usage_only_DecUsage)
qed

lemma Clear_queue_shape:
  assumes "Clear_queue s xs = Some s'"
  obtains u r where "s' = s\<lparr>m_usage := u, released := r\<rparr>"
  using usage_only_Clear_queue[OF assms] by (rule usage_onlyE)

lemma count_inv_Clear: "Clear s = Some s' \<Longrightarrow> count_inv s'"
  by (auto simp: Clear_def count_inv_def split: option.splits elim!: Clear_queue_shape)

lemma count_inv_apply_op: "apply_op s x = Some s' \<Longrightarrow> count_inv s \<Longrightarrow> count_inv s'"
proof (cases x)
  case (Op_FindOrCreate key acquired)
  assume a: "apply_op s x = Some s'" "count_inv s"
  show ?thesis
  proof (cases "m_T1T2map s key")
    case None
    then show ?thesis using a Op_FindOrCreate
      by (auto simp: FindOrCreate_def intro: count_inv_InternalInsert)
  next
    case (Some r)
    have "count_inv (s\<lparr>heap := (heap s)(r := (heap s r)\<lparr>referenceBit := True\<rparr>)\<rparr>)"
      using a by (simp add: count_inv_def)
    then show ?thesis using a Op_FindOrCreate Some
      by (auto simp: FindOrCreate_def Let_def count_inv_Handle_ctor)
  qed
next
  case (Op_IsInCache key)
  assume a: "apply_op s x = Some s'" "count_inv s"
  then show ?thesis using Op_IsInCache
    by (auto simp: IsInCache_def count_inv_Handle_ctor split: option.splits)
next
  case (Op_InsertIntoCache key v acquired)
  assume a: "apply_op s x = Some s'" "count_inv s"
  then show ?thesis using Op_InsertIntoCache
    by (auto simp: InsertIntoCache_def intro: count_inv_InternalInsert)
next
  case (Op_FindOrCreate_temporary key acquired)
  assume a: "apply_op s x = Some s'" "count_inv s"
  then obtain h t where t: "FindOrCreate s key acquired = Some (h, t)"
    and d: "map_option snd (Handle_dtor t h) = Some s'"
    using Op_FindOrCreate_temporary by (auto split: option.splits)
  have "apply_op s (Op_FindOrCreate key acquired) = Some t" using t by simp
  have ct: "count_inv t"
  proof (cases "m_T1T2map s key")
    case None
    then show ?thesis using a(2) t
      by (auto simp: FindOrCreate_def intro: count_inv_InternalInsert)
  next
    case (Some r)
    have "count_inv (s\<lparr>heap := (heap s)(r := (heap s r)\<lparr>referenceBit := True\<rparr>)\<rparr>)"
      using a(2) by (simp add: count_inv_def)
    moreover have "t = snd (Handle_ctor (s\<lparr>heap := (heap s)(r := (heap s r)\<lparr>referenceBit := True\<rparr>)\<rparr>)
                               True key (page (heap s r)))"
      using t Some by (simp add: FindOrCreate_def Let_def)
    ultimately show ?thesis by (simp add: count_inv_Handle_ctor)
  qed
  show ?thesis using d ct
    by (auto simp: Handle_dtor_def Handle_Release_def split: if_splits option.splits
             elim!: DecUsage_shape)
next
  case Op_Clear
  assume a: "apply_op s x = Some s'" "count_inv s"
  then show ?thesis using Op_Clear by (auto intro: count_inv_Clear)
next
  case (Op_Handle_copy h)
  assume a: "apply_op s x = Some s'" "count_inv s"
  then show ?thesis using Op_Handle_copy IncUsage_shape[of s "m_key h" "m_value h"]
    by (auto simp: Handle_copy_def)
next
  case (Op_Handle_Release h)
  assume a: "apply_op s x = Some s'" "count_inv s"
  then show ?thesis using Op_Handle_Release
    by (auto simp: Handle_Release_def split: if_splits option.splits elim!: DecUsage_shape)
qed

lemma count_inv_run: "run s xs = Some s' \<Longrightarrow> count_inv s \<Longrightarrow> count_inv s'"
  by (induction xs arbitrary: s) (auto split: option.splits intro: count_inv_apply_op)

subsection \<open>Well-formed caches\<close>

text \<open>
  The invariant of the lists, the ghost index and the counters (\<open>wf_lists\<close>), and of the
  resident index (\<open>wf_index\<close>). Inside \<open>InternalInsert\<close> the key being inserted is
  already in \<open>m_T1T2map\<close>, with a null element: it is the \<open>pending\<close> key, about which
  \<open>wf_index\<close> only says that no resident entry has it. The fields of an element are read
  through \<open>key_of\<close>, \<open>is_first\<close>, \<open>is_long\<close> and their negations, as functions of the
  address.
\<close>

definition key_of :: "(addr \<Rightarrow> 'k CLOCKElement) \<Rightarrow> addr \<Rightarrow> 'k" where
  "key_of h a = pageKey (h a)"
definition is_first :: "(addr \<Rightarrow> 'k CLOCKElement) \<Rightarrow> addr \<Rightarrow> bool" where
  "is_first h a = firstList (h a)"
definition is_second :: "(addr \<Rightarrow> 'k CLOCKElement) \<Rightarrow> addr \<Rightarrow> bool" where
  "is_second h a = (\<not> firstList (h a))"
definition is_long :: "(addr \<Rightarrow> 'k CLOCKElement) \<Rightarrow> addr \<Rightarrow> bool" where
  "is_long h a = longBit (h a)"
definition is_short :: "(addr \<Rightarrow> 'k CLOCKElement) \<Rightarrow> addr \<Rightarrow> bool" where
  "is_short h a = (\<not> longBit (h a))"

lemma proj_upd [simp]:
  "key_of (h(a := e)) = (key_of h)(a := pageKey e)"
  "is_first (h(a := e)) = (is_first h)(a := firstList e)"
  "is_second (h(a := e)) = (is_second h)(a := \<not> firstList e)"
  "is_long (h(a := e)) = (is_long h)(a := longBit e)"
  "is_short (h(a := e)) = (is_short h)(a := \<not> longBit e)"
  by (auto simp: fun_eq_iff key_of_def is_first_def is_second_def is_long_def is_short_def)

lemma proj_fold:
  "pageKey (h a) = key_of h a"
  "firstList (h a) = is_first h a"
  "longBit (h a) = is_long h a"
  by (auto simp: key_of_def is_first_def is_long_def)

lemma proj_apply [simp]:
  "is_second h a = (\<not> is_first h a)" "is_short h a = (\<not> is_long h a)"
  by (auto simp: is_first_def is_second_def is_long_def is_short_def)

lemma upd_notin [simp]:
  "a \<notin> set xs \<Longrightarrow> map (f(a := b)) xs = map f xs"
  "a \<notin> set xs \<Longrightarrow> filter (g(a := c)) xs = filter g xs"
  "a \<notin> set xs \<Longrightarrow> list_all (g(a := c)) xs = list_all g xs"
  by (induction xs) auto

definition all_lists :: "'k Cache \<Rightarrow> addr list" where
  "all_lists s = m_T1Queue s @ m_T2Queue s @ m_B1List s @ m_B2List s"

definition wf_lists :: "'k Cache \<Rightarrow> bool" where
  "wf_lists s \<longleftrightarrow>
     m_B1ListSize s = int (length (m_B1List s)) \<and> m_B2ListSize s = int (length (m_B2List s))
   \<and> distinct (all_lists s)
   \<and> distinct (map (key_of (heap s)) (all_lists s))
   \<and> list_all (\<lambda>a. a < heap_next s) (all_lists s)
   \<and> list_all (is_first (heap s)) (m_T1Queue s)
   \<and> list_all (is_second (heap s)) (m_T2Queue s)
   \<and> list_all (is_long (heap s)) (m_T2Queue s)
   \<and> list_all (is_first (heap s)) (m_B1List s)
   \<and> list_all (is_second (heap s)) (m_B2List s)
   \<and> distinct (map fst (m_B1B2map s))
   \<and> set (m_B1B2map s) = set (zip (map (key_of (heap s)) (m_B1List s @ m_B2List s)) (m_B1List s @ m_B2List s))
   \<and> m_numShort s = int (length (filter (is_short (heap s)) (m_T1Queue s)))
   \<and> m_numLong s = int (length (filter (is_long (heap s)) (m_T1Queue s)))
                     + int (length (m_T2Queue s))"

lemma wf_lists_T2_step:
  assumes "T2_cond s" "wf_lists s"
  shows "wf_lists (T2_step c s)"
proof -
  from assms(1) obtain a rest where T2: "m_T2Queue s = a # rest"
    by (cases "m_T2Queue s") (auto simp: T2_cond_def)
  show ?thesis
    using assms(2) T2
    unfolding wf_lists_def T2_step_def adapt_q_def Let_def all_lists_def
    apply (simp add: proj_fold)
    done
qed

definition wf_index :: "'k option \<Rightarrow> 'k Cache \<Rightarrow> bool" where
  "wf_index pending s \<longleftrightarrow>
     (\<forall>k a. Some k \<noteq> pending \<longrightarrow>
        (m_T1T2map s k = Some a \<longleftrightarrow> a \<in> set (m_T1Queue s @ m_T2Queue s) \<and> key_of (heap s) a = k))
   \<and> (\<forall>k. pending = Some k \<longrightarrow> k \<notin> set (map (key_of (heap s)) (m_T1Queue s @ m_T2Queue s)))"

lemma wf_index_T2_step:
  assumes "T2_cond s" "wf_index pend s"
  shows "wf_index pend (T2_step c s)"
proof -
  from assms(1) obtain a rest where T2: "m_T2Queue s = a # rest"
    by (cases "m_T2Queue s") (auto simp: T2_cond_def)
  show ?thesis
    using assms(2) T2
    unfolding wf_index_def T2_step_def adapt_q_def Let_def
    by (simp add: proj_fold)
qed

lemma wf_lists_T1_step:
  assumes "T1_cond s" "wf_lists s"
  shows "wf_lists (T1_step c s)"
proof -
  from assms(1) obtain a rest where T1: "m_T1Queue s = a # rest"
    and bits: "is_long (heap s) a \<or> referenceBit (heap s a)"
    by (cases "m_T1Queue s") (auto simp: T1_cond_def proj_fold)
  show ?thesis
    using assms(2) T1 bits
    unfolding wf_lists_def T1_step_def Let_def all_lists_def
    by (cases "referenceBit (heap s a)") (simp_all add: proj_fold)
qed

lemma wf_index_T1_step:
  assumes "T1_cond s" "wf_index pend s"
  shows "wf_index pend (T1_step c s)"
proof -
  from assms(1) obtain a rest where T1: "m_T1Queue s = a # rest"
    by (cases "m_T1Queue s") (auto simp: T1_cond_def)
  show ?thesis
    using assms(2) T1
    unfolding wf_index_def T1_step_def Let_def
    by (simp add: proj_fold) blast
qed

lemma wf_lists_usage [simp]:
  "wf_lists (s\<lparr>m_usage := u, released := r\<rparr>) = wf_lists s"
  "wf_lists (s\<lparr>m_usage := u\<rparr>) = wf_lists s"
  "wf_lists (s\<lparr>m_usedMemory := m\<rparr>) = wf_lists s"
  "wf_lists (s\<lparr>m_T1T2map := R\<rparr>) = wf_lists s"
  by (simp_all add: wf_lists_def all_lists_def)

lemma wf_index_usage [simp]:
  "wf_index pend (s\<lparr>m_usage := u, released := r\<rparr>) = wf_index pend s"
  "wf_index pend (s\<lparr>m_usage := u\<rparr>) = wf_index pend s"
  "wf_index pend (s\<lparr>m_usedMemory := m\<rparr>) = wf_index pend s"
  by (simp_all add: wf_index_def)

lemma wf_lists_sweepT2: "wf_lists s \<Longrightarrow> wf_lists (sweepT2 c s)"
  by (induction c s rule: sweepT2.induct) (subst sweepT2.simps, simp add: wf_lists_T2_step)

lemma wf_index_sweepT2: "wf_index pend s \<Longrightarrow> wf_index pend (sweepT2 c s)"
  by (induction c s rule: sweepT2.induct) (subst sweepT2.simps, simp add: wf_index_T2_step)

lemma wf_lists_sweepT1: "wf_lists s \<Longrightarrow> wf_lists (sweepT1 c s)"
  by (induction c s rule: sweepT1.induct) (subst sweepT1.simps, simp add: wf_lists_T1_step)

lemma wf_index_sweepT1: "wf_index pend s \<Longrightarrow> wf_index pend (sweepT1 c s)"
  by (induction c s rule: sweepT1.induct) (subst sweepT1.simps, simp add: wf_index_T1_step)

lemma map_of_eq_None_zip:
  "set m = set (zip (map f xs) xs) \<Longrightarrow> (map_of m k = None) = (k \<notin> f ` set xs)"
  by (force simp: map_of_eq_None_iff in_set_zip set_conv_nth image_iff)

lemma wf_ghost_keys:
  assumes "wf_lists s"
  shows "(map_of (m_B1B2map s) k = None) = (k \<notin> key_of (heap s) ` set (m_B1List s @ m_B2List s))"
  using assms map_of_eq_None_zip[of "m_B1B2map s" "key_of (heap s)" "m_B1List s @ m_B2List s" k]
  by (simp add: wf_lists_def)

lemma wf_lists_demote_T1:
  assumes "wf_lists s" "m_T1Queue s = before @ a # after"
  shows "wf_lists (s\<lparr>m_T1Queue := before @ after,
            m_numLong := (if longBit (heap s a) then m_numLong s - 1 else m_numLong s),
            m_numShort := (if longBit (heap s a) then m_numShort s else m_numShort s - 1),
            m_B1List := a # m_B1List s,
            m_B1ListSize := m_B1ListSize s + 1,
            m_B1B2map := B1B2map_insert (pageKey (heap s a)) a (m_B1B2map s)\<rparr>)"
proof -
  have "map_of (m_B1B2map s) (key_of (heap s) a) = None"
    using assms by (simp add: wf_ghost_keys) (simp add: wf_lists_def all_lists_def image_Un)
  then show ?thesis
    using assms
    unfolding wf_lists_def all_lists_def B1B2map_insert_def
    by (simp add: proj_fold map_of_eq_None_iff)
qed

lemma demoteE:
  assumes "demote s = Some s'"
  obtains
    (T1) before a after u r where
      "m_T1Queue s = before @ a # after" "unpinned s a" "list_all (\<lambda>x. \<not> unpinned s x) before"
      "int (length (m_T1Queue s)) \<ge> Max_T 1 (u32 (m_p s))"
      "s' = s\<lparr>m_T1Queue := before @ after,
              m_numLong := (if longBit (heap s a) then m_numLong s - 1 else m_numLong s),
              m_numShort := (if longBit (heap s a) then m_numShort s else m_numShort s - 1),
              m_B1List := a # m_B1List s,
              m_B1ListSize := m_B1ListSize s + 1,
              m_B1B2map := B1B2map_insert (pageKey (heap s a)) a (m_B1B2map s),
              m_usage := u, released := r,
              m_usedMemory := m_usedMemory s - CacheGetValueSize (m_interface s) (page (heap s a)),
              m_T1T2map := (m_T1T2map s)(pageKey (heap s a) := None)\<rparr>"
  | (T2) before a after u r where
      "m_T2Queue s = before @ a # after" "unpinned s a" "list_all (\<lambda>x. \<not> unpinned s x) before"
      "s' = s\<lparr>m_T2Queue := before @ after,
              m_numLong := m_numLong s - 1,
              m_B2List := a # m_B2List s,
              m_B2ListSize := m_B2ListSize s + 1,
              m_B1B2map := B1B2map_insert (pageKey (heap s a)) a (m_B1B2map s),
              m_usage := u, released := r,
              m_usedMemory := m_usedMemory s - CacheGetValueSize (m_interface s) (page (heap s a)),
              m_T1T2map := (m_T1T2map s)(pageKey (heap s a) := None)\<rparr>"
  | (none) "s' = s"
proof (cases "if int (length (m_T1Queue s)) \<ge> Max_T 1 (u32 (m_p s))
                      then List.extract (unpinned s) (m_T1Queue s) else None")
  case (Some t)
  then obtain before a after where t: "t = (before, a, after)" by (cases t)
  with Some have ex: "List.extract (unpinned s) (m_T1Queue s) = Some (before, a, after)"
    and big: "int (length (m_T1Queue s)) \<ge> Max_T 1 (u32 (m_p s))"
    by (auto split: if_splits)
  from ex have "m_T1Queue s = before @ a # after" "unpinned s a" "list_all (\<lambda>x. \<not> unpinned s x) before"
    by (auto dest!: extract_SomeE simp: list_all_iff)
  moreover note big
  moreover from assms Some t obtain u r where
     "s' = s\<lparr>m_T1Queue := before @ after,
              m_numLong := (if longBit (heap s a) then m_numLong s - 1 else m_numLong s),
              m_numShort := (if longBit (heap s a) then m_numShort s else m_numShort s - 1),
              m_B1List := a # m_B1List s,
              m_B1ListSize := m_B1ListSize s + 1,
              m_B1B2map := B1B2map_insert (pageKey (heap s a)) a (m_B1B2map s),
              m_usage := u, released := r,
              m_usedMemory := m_usedMemory s - CacheGetValueSize (m_interface s) (page (heap s a)),
              m_T1T2map := (m_T1T2map s)(pageKey (heap s a) := None)\<rparr>"
    unfolding demote_def Let_def by (auto elim!: evict_shape)
  ultimately show ?thesis by (rule T1)
next
  case None
  show ?thesis
  proof (cases "List.extract (unpinned s) (m_T2Queue s)")
    case None2: None
    with None assms have "s' = s" unfolding demote_def Let_def by simp
    then show ?thesis by (rule none)
  next
    case (Some t)
    then obtain before a after where t: "t = (before, a, after)" by (cases t)
    with Some have "m_T2Queue s = before @ a # after" "unpinned s a" "list_all (\<lambda>x. \<not> unpinned s x) before"
      by (auto dest!: extract_SomeE simp: list_all_iff)
    moreover from assms None Some t obtain u r where
      "s' = s\<lparr>m_T2Queue := before @ after,
              m_numLong := m_numLong s - 1,
              m_B2List := a # m_B2List s,
              m_B2ListSize := m_B2ListSize s + 1,
              m_B1B2map := B1B2map_insert (pageKey (heap s a)) a (m_B1B2map s),
              m_usage := u, released := r,
              m_usedMemory := m_usedMemory s - CacheGetValueSize (m_interface s) (page (heap s a)),
              m_T1T2map := (m_T1T2map s)(pageKey (heap s a) := None)\<rparr>"
      unfolding demote_def Let_def by (auto elim!: evict_shape)
    ultimately show ?thesis by (rule T2)
  qed
qed

lemma wf_lists_demote_T2:
  assumes "wf_lists s" "m_T2Queue s = before @ a # after"
  shows "wf_lists (s\<lparr>m_T2Queue := before @ after,
            m_numLong := m_numLong s - 1,
            m_B2List := a # m_B2List s,
            m_B2ListSize := m_B2ListSize s + 1,
            m_B1B2map := B1B2map_insert (pageKey (heap s a)) a (m_B1B2map s)\<rparr>)"
proof -
  have "map_of (m_B1B2map s) (key_of (heap s) a) = None"
    using assms by (simp add: wf_ghost_keys) (simp add: wf_lists_def all_lists_def image_Un)
  then show ?thesis
    using assms
    unfolding wf_lists_def all_lists_def B1B2map_insert_def
    by (simp add: proj_fold map_of_eq_None_iff)
qed

definition index_ok :: "'k option \<Rightarrow> ('k \<rightharpoonup> addr) \<Rightarrow> addr set \<Rightarrow> (addr \<Rightarrow> 'k) \<Rightarrow> bool" where
  "index_ok pending R A f \<longleftrightarrow>
     (\<forall>k a. Some k \<noteq> pending \<longrightarrow> (R k = Some a \<longleftrightarrow> a \<in> A \<and> f a = k))
   \<and> (\<forall>k. pending = Some k \<longrightarrow> k \<notin> f ` A)"

lemma wf_index_alt:
  "wf_index pend s = index_ok pend (m_T1T2map s) (set (m_T1Queue s @ m_T2Queue s)) (key_of (heap s))"
  by (simp add: wf_index_def index_ok_def image_Un)

lemma index_ok_erase:
  assumes "index_ok pend R A f" "inj_on f A" "a \<in> A"
  shows "index_ok pend (R(f a := None)) (A - {a}) f"
  using assms unfolding index_ok_def inj_on_def
  by (auto simp: image_iff)

lemma wf_listsD:
  assumes "wf_lists s"
  shows "m_B1ListSize s = int (length (m_B1List s))" "m_B2ListSize s = int (length (m_B2List s))"
    "distinct (all_lists s)" "distinct (map (key_of (heap s)) (all_lists s))"
    "list_all (\<lambda>a. a < heap_next s) (all_lists s)"
    "list_all (is_first (heap s)) (m_T1Queue s)"
    "list_all (is_second (heap s)) (m_T2Queue s)"
    "list_all (is_long (heap s)) (m_T2Queue s)"
    "list_all (is_first (heap s)) (m_B1List s)"
    "list_all (is_second (heap s)) (m_B2List s)"
    "distinct (map fst (m_B1B2map s))"
    "set (m_B1B2map s) = set (zip (map (key_of (heap s)) (m_B1List s @ m_B2List s)) (m_B1List s @ m_B2List s))"
    "m_numShort s = int (length (filter (is_short (heap s)) (m_T1Queue s)))"
    "m_numLong s = int (length (filter (is_long (heap s)) (m_T1Queue s))) + int (length (m_T2Queue s))"
  using assms unfolding wf_lists_def by blast+

lemma wf_lists_inj:
  assumes "wf_lists s"
  shows "inj_on (key_of (heap s)) (set (m_T1Queue s @ m_T2Queue s))"
proof -
  have "inj_on (key_of (heap s)) (set (all_lists s))"
    using wf_listsD(4)[OF assms] by (simp only: distinct_map)
  then show ?thesis
    by (rule inj_on_subset) (auto simp: all_lists_def)
qed

lemma set_minus_middle:
  "distinct (xs @ a # ys) \<Longrightarrow> set (xs @ ys) = set (xs @ a # ys) - {a}"
  by auto

lemma wf_index_erase_T1:
  assumes "wf_lists s" "wf_index pend s" "m_T1Queue s = before @ a # after"
  shows "wf_index pend (s\<lparr>m_T1Queue := before @ after,
            m_T1T2map := (m_T1T2map s)(pageKey (heap s a) := None)\<rparr>)"
proof -
  have "distinct (before @ a # (after @ m_T2Queue s))"
    using wf_listsD(3)[OF assms(1)] assms(3) by (auto simp: all_lists_def)
  then have "set (before @ after @ m_T2Queue s) = set (m_T1Queue s @ m_T2Queue s) - {a}"
    using set_minus_middle[of before a "after @ m_T2Queue s"] assms(3) by simp
  then show ?thesis
    using index_ok_erase[OF assms(2)[unfolded wf_index_alt] wf_lists_inj[OF assms(1)], of a] assms(3)
    by (simp add: wf_index_alt proj_fold)
qed

lemma wf_index_erase_T2:
  assumes "wf_lists s" "wf_index pend s" "m_T2Queue s = before @ a # after"
  shows "wf_index pend (s\<lparr>m_T2Queue := before @ after,
            m_T1T2map := (m_T1T2map s)(pageKey (heap s a) := None)\<rparr>)"
proof -
  have "distinct ((m_T1Queue s @ before) @ a # after)"
    using wf_listsD(3)[OF assms(1)] assms(3) by (auto simp: all_lists_def)
  then have "set (m_T1Queue s @ before @ after) = set (m_T1Queue s @ m_T2Queue s) - {a}"
    using set_minus_middle[of "m_T1Queue s @ before" a after] assms(3) by simp
  then show ?thesis
    using index_ok_erase[OF assms(2)[unfolded wf_index_alt] wf_lists_inj[OF assms(1)], of a] assms(3)
    by (simp add: wf_index_alt proj_fold)
qed

lemma wf_lists_cong:
  assumes "m_T1Queue s' = m_T1Queue s" "m_T2Queue s' = m_T2Queue s" "m_B1List s' = m_B1List s"
    "m_B2List s' = m_B2List s" "m_B1ListSize s' = m_B1ListSize s" "m_B2ListSize s' = m_B2ListSize s"
    "m_B1B2map s' = m_B1B2map s" "m_numShort s' = m_numShort s" "m_numLong s' = m_numLong s"
    "heap s' = heap s" "heap_next s' = heap_next s"
  shows "wf_lists s' = wf_lists s"
  using assms by (simp add: wf_lists_def all_lists_def)

lemma wf_index_cong:
  assumes "m_T1Queue s' = m_T1Queue s" "m_T2Queue s' = m_T2Queue s" "m_T1T2map s' = m_T1T2map s"
    "heap s' = heap s"
  shows "wf_index pend s' = wf_index pend s"
  using assms by (simp add: wf_index_def)

lemma wf_demote:
  assumes "demote s = Some s'" "wf_lists s" "wf_index pend s"
  shows "wf_lists s'" "wf_index pend s'"
proof -
  have "wf_lists s' \<and> wf_index pend s'"
    using assms(1)
  proof (cases rule: demoteE)
    case (T1 before a after u r)
    have "wf_lists s' = wf_lists (s\<lparr>m_T1Queue := before @ after,
            m_numLong := (if longBit (heap s a) then m_numLong s - 1 else m_numLong s),
            m_numShort := (if longBit (heap s a) then m_numShort s else m_numShort s - 1),
            m_B1List := a # m_B1List s,
            m_B1ListSize := m_B1ListSize s + 1,
            m_B1B2map := B1B2map_insert (pageKey (heap s a)) a (m_B1B2map s)\<rparr>)"
      by (rule wf_lists_cong) (simp_all add: T1(5))
    moreover have "wf_index pend s' = wf_index pend (s\<lparr>m_T1Queue := before @ after,
            m_T1T2map := (m_T1T2map s)(pageKey (heap s a) := None)\<rparr>)"
      by (rule wf_index_cong) (simp_all add: T1(5))
    ultimately show ?thesis
      using wf_lists_demote_T1[OF assms(2) T1(1)] wf_index_erase_T1[OF assms(2,3) T1(1)] by simp
  next
    case (T2 before a after u r)
    have "wf_lists s' = wf_lists (s\<lparr>m_T2Queue := before @ after,
            m_numLong := m_numLong s - 1,
            m_B2List := a # m_B2List s,
            m_B2ListSize := m_B2ListSize s + 1,
            m_B1B2map := B1B2map_insert (pageKey (heap s a)) a (m_B1B2map s)\<rparr>)"
      by (rule wf_lists_cong) (simp_all add: T2(4))
    moreover have "wf_index pend s' = wf_index pend (s\<lparr>m_T2Queue := before @ after,
            m_T1T2map := (m_T1T2map s)(pageKey (heap s a) := None)\<rparr>)"
      by (rule wf_index_cong) (simp_all add: T2(4))
    ultimately show ?thesis
      using wf_lists_demote_T2[OF assms(2) T2(1)] wf_index_erase_T2[OF assms(2,3) T2(1)] by simp
  next
    case none
    then show ?thesis using assms by simp
  qed
  then show "wf_lists s'" "wf_index pend s'" by simp_all
qed

lemma set_zip_map_self: "set (zip (map f xs) xs) = (\<lambda>a. (f a, a)) ` set xs"
  by (induction xs) auto

lemma ghost_erase:
  assumes "set G = (\<lambda>a. (f a, a)) ` A" "inj_on f A" "x \<in> A"
  shows "set (B1B2map_erase (f x) G) = (\<lambda>a. (f a, a)) ` (A - {x})"
  using assms unfolding B1B2map_erase_def inj_on_def by auto

lemma distinct_ghost_erase:
  "distinct (map fst G) \<Longrightarrow> distinct (map fst (B1B2map_erase k G))"
  by (simp add: B1B2map_erase_def distinct_map_filter)

lemma wf_lists_pop_B1:
  assumes "wf_lists s" "m_B1List s = xs @ [x]"
  shows "wf_lists (s\<lparr>m_B1List := xs, m_B1ListSize := m_B1ListSize s - 1,
            m_B1B2map := B1B2map_erase (pageKey (heap s x)) (m_B1B2map s)\<rparr>)"
proof -
  have inj: "inj_on (key_of (heap s)) (set (all_lists s))"
    using wf_listsD(4)[OF assms(1)] by (simp only: distinct_map)
  have d: "distinct (all_lists s)" by (rule wf_listsD(3)[OF assms(1)])
  have "set (B1B2map_erase (key_of (heap s) x) (m_B1B2map s))
        = (\<lambda>a. (key_of (heap s) a, a)) ` (set (m_B1List s @ m_B2List s) - {x})"
    using wf_listsD(12)[OF assms(1)] assms(2)
    by (intro ghost_erase inj_on_subset[OF inj]) (auto simp: set_zip_map_self all_lists_def)
  moreover have "set (m_B1List s @ m_B2List s) - {x} = set (xs @ m_B2List s)"
    using d assms(2) by (auto simp: all_lists_def)
  ultimately have G: "set (B1B2map_erase (key_of (heap s) x) (m_B1B2map s))
        = set (zip (map (key_of (heap s)) (xs @ m_B2List s)) (xs @ m_B2List s))"
    by (simp only: set_zip_map_self)
  show ?thesis
    using assms G distinct_ghost_erase[OF wf_listsD(11)[OF assms(1)], of "key_of (heap s) x"]
    unfolding wf_lists_def all_lists_def
    by (simp add: proj_fold)
qed

lemma wf_lists_pop_B2:
  assumes "wf_lists s" "m_B2List s = xs @ [x]"
  shows "wf_lists (s\<lparr>m_B2List := xs, m_B2ListSize := m_B2ListSize s - 1,
            m_B1B2map := B1B2map_erase (pageKey (heap s x)) (m_B1B2map s)\<rparr>)"
proof -
  have inj: "inj_on (key_of (heap s)) (set (all_lists s))"
    using wf_listsD(4)[OF assms(1)] by (simp only: distinct_map)
  have d: "distinct (all_lists s)" by (rule wf_listsD(3)[OF assms(1)])
  have "set (B1B2map_erase (key_of (heap s) x) (m_B1B2map s))
        = (\<lambda>a. (key_of (heap s) a, a)) ` (set (m_B1List s @ m_B2List s) - {x})"
    using wf_listsD(12)[OF assms(1)] assms(2)
    by (intro ghost_erase inj_on_subset[OF inj]) (auto simp: set_zip_map_self all_lists_def)
  moreover have "set (m_B1List s @ m_B2List s) - {x} = set (m_B1List s @ xs)"
    using d assms(2) by (auto simp: all_lists_def)
  ultimately have G: "set (B1B2map_erase (key_of (heap s) x) (m_B1B2map s))
        = set (zip (map (key_of (heap s)) (m_B1List s @ xs)) (m_B1List s @ xs))"
    by (simp only: set_zip_map_self)
  show ?thesis
    using assms G distinct_ghost_erase[OF wf_listsD(11)[OF assms(1)], of "key_of (heap s) x"]
    unfolding wf_lists_def all_lists_def
    by (simp add: proj_fold)
qed

lemma history_replaceE:
  assumes "history_replace c key s = Some s'"
  obtains
    (B1) xs x where "history_cond c key s" "m_B1ListSize s > Max_T 0 (m_q s) \<or> m_B2ListSize s = 0"
      "m_B1List s = xs @ [x]"
      "s' = s\<lparr>m_B1List := xs, m_B1ListSize := m_B1ListSize s - 1,
              m_B1B2map := B1B2map_erase (pageKey (heap s x)) (m_B1B2map s)\<rparr>"
  | (B2) xs x where "history_cond c key s" "\<not> (m_B1ListSize s > Max_T 0 (m_q s) \<or> m_B2ListSize s = 0)"
      "m_B2List s = xs @ [x]"
      "s' = s\<lparr>m_B2List := xs, m_B2ListSize := m_B2ListSize s - 1,
              m_B1B2map := B1B2map_erase (pageKey (heap s x)) (m_B1B2map s)\<rparr>"
  | (none) "\<not> history_cond c key s \<or> m_B2ListSize s < 0" "s' = s"
proof (cases "history_cond c key s")
  case False
  with assms have "s' = s" by (simp add: history_replace_def)
  with False show ?thesis by (intro none) simp_all
next
  case True
  show ?thesis
  proof (cases "m_B1ListSize s > Max_T 0 (m_q s) \<or> m_B2ListSize s = 0")
    case c1: True
    with True assms have ne: "m_B1List s \<noteq> []"
      and s': "s' = s\<lparr>m_B1List := butlast (m_B1List s), m_B1ListSize := m_B1ListSize s - 1,
              m_B1B2map := B1B2map_erase (pageKey (heap s (last (m_B1List s)))) (m_B1B2map s)\<rparr>"
      by (auto simp: history_replace_def split: if_splits)
    from ne have "m_B1List s = butlast (m_B1List s) @ [last (m_B1List s)]" by simp
    with True c1 show ?thesis using s' by (rule B1)
  next
    case c2: False
    show ?thesis
    proof (cases "m_B2ListSize s > 0")
      case pos: True
      with True c2 assms have ne: "m_B2List s \<noteq> []"
        and s': "s' = s\<lparr>m_B2List := butlast (m_B2List s), m_B2ListSize := m_B2ListSize s - 1,
                m_B1B2map := B1B2map_erase (pageKey (heap s (last (m_B2List s)))) (m_B1B2map s)\<rparr>"
        by (auto simp: history_replace_def split: if_splits)
      from ne have "m_B2List s = butlast (m_B2List s) @ [last (m_B2List s)]" by simp
      with True c2 show ?thesis using s' by (rule B2)
    next
      case False
      with True c2 assms have "s' = s" by (auto simp: history_replace_def split: if_splits)
      moreover from False c2 have "m_B2ListSize s < 0" by auto
      ultimately show ?thesis by (intro none) simp_all
    qed
  qed
qed

lemma wf_history_replace:
  assumes "history_replace c key s = Some s'" "wf_lists s" "wf_index pend s"
  shows "wf_lists s'" "wf_index pend s'"
proof -
  have "wf_lists s' \<and> wf_index pend s'"
    using assms(1)
  proof (cases rule: history_replaceE)
    case (B1 xs x)
    have "wf_index pend s' = wf_index pend s"
      by (rule wf_index_cong) (simp_all add: B1(4))
    then show ?thesis using wf_lists_pop_B1[OF assms(2) B1(3)] assms(3) B1(4) by simp
  next
    case (B2 xs x)
    have "wf_index pend s' = wf_index pend s"
      by (rule wf_index_cong) (simp_all add: B2(4))
    then show ?thesis using wf_lists_pop_B2[OF assms(2) B2(3)] assms(3) B2(4) by simp
  next
    case none
    then show ?thesis using assms by simp
  qed
  then show "wf_lists s'" "wf_index pend s'" by simp_all
qed

lemma wf_replace_page:
  assumes "replace_page c key s = Some s'" "wf_lists s" "wf_index pend s"
  shows "wf_lists s'" "wf_index pend s'"
proof -
  from assms(1) obtain s1 where d: "demote (sweepT1 c (sweepT2 c s)) = Some s1"
    and h: "history_replace c key s1 = Some s'"
    by (auto simp: replace_page_def split: option.splits)
  have "wf_lists (sweepT1 c (sweepT2 c s))" "wf_index pend (sweepT1 c (sweepT2 c s))"
    using assms(2,3) by (simp_all add: wf_lists_sweepT1 wf_lists_sweepT2 wf_index_sweepT1 wf_index_sweepT2)
  then have "wf_lists s1" "wf_index pend s1"
    using wf_demote[OF d] by simp_all
  then show "wf_lists s'" "wf_index pend s'"
    using wf_history_replace[OF h] by simp_all
qed

lemma list_all_less_Suc [simp]:
  "list_all (\<lambda>a. a < n) xs \<Longrightarrow> list_all (\<lambda>a. a < Suc n) xs"
  by (induction xs) auto

lemma list_all_less_notin: "list_all (\<lambda>a. a < n) xs \<Longrightarrow> (n::nat) \<notin> set xs"
  by (induction xs) auto

lemma install_miss:
  "map_of (m_B1B2map s) key = None \<Longrightarrow>
   install c key v s =
     s\<lparr>heap := (heap s)(heap_next s := \<lparr>pageKey = key, page = v, referenceBit = False,
                                        longBit = False, firstList = True\<rparr>),
       heap_next := Suc (heap_next s),
       m_numShort := m_numShort s + 1,
       m_T1T2map := (m_T1T2map s)(key \<mapsto> heap_next s),
       m_T1Queue := m_T1Queue s @ [heap_next s]\<rparr>"
  by (simp add: install_def Let_def)

lemma wf_install_miss:
  assumes "wf_lists s" "wf_index (Some key) s" "map_of (m_B1B2map s) key = None"
  shows "wf_lists (install c key v s)" "wf_index None (install c key v s)"
proof -
  let ?n = "heap_next s"
  have fresh: "?n \<notin> set (all_lists s)"
    using wf_listsD(5)[OF assms(1)] by (rule list_all_less_notin)
  have k1: "key \<notin> key_of (heap s) ` set (m_T1Queue s @ m_T2Queue s)"
    using assms(2) by (simp add: wf_index_def image_Un)
  have k2: "key \<notin> key_of (heap s) ` set (m_B1List s @ m_B2List s)"
    using assms(1,3) by (simp add: wf_ghost_keys)
  show "wf_lists (install c key v s)"
    using assms(1) fresh k1 k2
    unfolding install_miss[OF assms(3)] wf_lists_def all_lists_def
    by (simp add: image_Un)
  show "wf_index None (install c key v s)"
    using assms(2) fresh k1
    unfolding install_miss[OF assms(3)] wf_index_def all_lists_def
    by (auto simp: image_Un)
qed

lemma install_B1:
  "map_of (m_B1B2map s) key = Some g \<Longrightarrow> firstList (heap s g) \<Longrightarrow>
   install c key v s =
     s\<lparr>m_p := Min_T (m_p s + Max_T 1 (if m_B1ListSize s \<noteq> 0
                                         then int_div (m_numShort s) (m_B1ListSize s) else 0))
                    (i32 (int c)),
       heap := (heap s)(g := (heap s g)\<lparr>page := v, referenceBit := False, longBit := True\<rparr>),
       m_numLong := m_numLong s + 1,
       m_T1T2map := (m_T1T2map s)(key \<mapsto> g),
       m_T1Queue := m_T1Queue s @ [g],
       m_B1List := remove1 g (m_B1List s),
       m_B1ListSize := m_B1ListSize s - 1,
       m_B1B2map := B1B2map_erase key (m_B1B2map s)\<rparr>"
  by (simp add: install_def)

lemma install_B2:
  "map_of (m_B1B2map s) key = Some g \<Longrightarrow> \<not> firstList (heap s g) \<Longrightarrow>
   install c key v s =
     adapt_q c
      (s\<lparr>m_p := Max_T (m_p s - Max_T 1 (if m_B2ListSize s \<noteq> 0
                                          then int_div (m_numLong s) (m_B2ListSize s) else 0)) 0,
         heap := (heap s)(g := (heap s g)\<lparr>page := v, firstList := True,
                                           referenceBit := False, longBit := True\<rparr>),
         m_numLong := m_numLong s + 1,
         m_T1T2map := (m_T1T2map s)(key \<mapsto> g),
         m_T1Queue := m_T1Queue s @ [g],
         m_B2List := remove1 g (m_B2List s),
         m_B2ListSize := m_B2ListSize s - 1,
         m_B1B2map := B1B2map_erase key (m_B1B2map s)\<rparr>)"
  by (simp add: install_def)

lemma wf_ghost_lookup:
  assumes "wf_lists s" "map_of (m_B1B2map s) key = Some g"
  shows "g \<in> set (m_B1List s @ m_B2List s)" "key_of (heap s) g = key"
proof -
  have "(key, g) \<in> set (m_B1B2map s)" using assms(2) by (rule map_of_SomeD)
  then have "(key, g) \<in> (\<lambda>a. (key_of (heap s) a, a)) ` set (m_B1List s @ m_B2List s)"
    using wf_listsD(12)[OF assms(1)] by (simp only: set_zip_map_self)
  then show "g \<in> set (m_B1List s @ m_B2List s)" "key_of (heap s) g = key" by auto
qed

lemma wf_ghost_in_B1:
  assumes "wf_lists s" "map_of (m_B1B2map s) key = Some g" "firstList (heap s g)"
  shows "g \<in> set (m_B1List s)"
proof -
  have "g \<notin> set (m_B2List s)"
    using wf_listsD(10)[OF assms(1)] assms(3) by (auto simp: list_all_iff proj_fold)
  then show ?thesis using wf_ghost_lookup(1)[OF assms(1,2)] by simp
qed

lemma wf_ghost_in_B2:
  assumes "wf_lists s" "map_of (m_B1B2map s) key = Some g" "\<not> firstList (heap s g)"
  shows "g \<in> set (m_B2List s)"
proof -
  have "g \<notin> set (m_B1List s)"
    using wf_listsD(9)[OF assms(1)] assms(3) by (auto simp: list_all_iff proj_fold)
  then show ?thesis using wf_ghost_lookup(1)[OF assms(1,2)] by simp
qed

lemma wf_lists_revive_B1:
  assumes "wf_lists s" "m_B1List s = xs @ g # ys" "key_of (heap s) g = key"
  shows "wf_lists (s\<lparr>heap := (heap s)(g := (heap s g)\<lparr>page := v, referenceBit := False, longBit := True\<rparr>),
       m_numLong := m_numLong s + 1,
       m_T1Queue := m_T1Queue s @ [g],
       m_B1List := xs @ ys,
       m_B1ListSize := m_B1ListSize s - 1,
       m_B1B2map := B1B2map_erase key (m_B1B2map s)\<rparr>)"
proof -
  have inj: "inj_on (key_of (heap s)) (set (all_lists s))"
    using wf_listsD(4)[OF assms(1)] by (simp only: distinct_map)
  have d: "distinct (all_lists s)" by (rule wf_listsD(3)[OF assms(1)])
  have "set (B1B2map_erase (key_of (heap s) g) (m_B1B2map s))
        = (\<lambda>a. (key_of (heap s) a, a)) ` (set (m_B1List s @ m_B2List s) - {g})"
    using wf_listsD(12)[OF assms(1)] assms(2)
    by (intro ghost_erase inj_on_subset[OF inj]) (auto simp: set_zip_map_self all_lists_def)
  moreover have "set (m_B1List s @ m_B2List s) - {g} = set ((xs @ ys) @ m_B2List s)"
    using d assms(2) by (auto simp: all_lists_def)
  ultimately have G: "set (B1B2map_erase key (m_B1B2map s))
        = set (zip (map (key_of (heap s)) ((xs @ ys) @ m_B2List s)) ((xs @ ys) @ m_B2List s))"
    using assms(3) by (simp only: set_zip_map_self)
  show ?thesis
    using assms(1,2) G distinct_ghost_erase[OF wf_listsD(11)[OF assms(1)], of key]
    unfolding wf_lists_def all_lists_def
    by (simp add: proj_fold)
qed

lemma wf_lists_revive_B2:
  assumes "wf_lists s" "m_B2List s = xs @ g # ys" "key_of (heap s) g = key"
  shows "wf_lists (s\<lparr>heap := (heap s)(g := (heap s g)\<lparr>page := v, firstList := True,
                                           referenceBit := False, longBit := True\<rparr>),
       m_numLong := m_numLong s + 1,
       m_T1Queue := m_T1Queue s @ [g],
       m_B2List := xs @ ys,
       m_B2ListSize := m_B2ListSize s - 1,
       m_B1B2map := B1B2map_erase key (m_B1B2map s)\<rparr>)"
proof -
  have inj: "inj_on (key_of (heap s)) (set (all_lists s))"
    using wf_listsD(4)[OF assms(1)] by (simp only: distinct_map)
  have d: "distinct (all_lists s)" by (rule wf_listsD(3)[OF assms(1)])
  have "set (B1B2map_erase (key_of (heap s) g) (m_B1B2map s))
        = (\<lambda>a. (key_of (heap s) a, a)) ` (set (m_B1List s @ m_B2List s) - {g})"
    using wf_listsD(12)[OF assms(1)] assms(2)
    by (intro ghost_erase inj_on_subset[OF inj]) (auto simp: set_zip_map_self all_lists_def)
  moreover have "set (m_B1List s @ m_B2List s) - {g} = set (m_B1List s @ xs @ ys)"
    using d assms(2) by (auto simp: all_lists_def)
  ultimately have G: "set (B1B2map_erase key (m_B1B2map s))
        = set (zip (map (key_of (heap s)) (m_B1List s @ xs @ ys)) (m_B1List s @ xs @ ys))"
    using assms(3) by (simp only: set_zip_map_self)
  show ?thesis
    using assms(1,2) G distinct_ghost_erase[OF wf_listsD(11)[OF assms(1)], of key]
    unfolding wf_lists_def all_lists_def
    by (simp add: proj_fold)
qed

lemma index_ok_add:
  assumes "index_ok (Some (f a)) R A f"
  shows "index_ok None (R(f a \<mapsto> a)) (insert a A) f"
  using assms unfolding index_ok_def by (auto simp: image_iff)

lemma wf_index_revive:
  assumes "wf_index (Some key) s" "key_of (heap s) g = key" "pageKey e = key"
    "m_T1Queue s' = m_T1Queue s @ [g]" "m_T2Queue s' = m_T2Queue s"
    "heap s' = (heap s)(g := e)" "m_T1T2map s' = (m_T1T2map s)(key \<mapsto> g)"
  shows "wf_index None s'"
proof -
  have "key_of (heap s') = key_of (heap s)"
    using assms(2,3,6) by (simp add: fun_eq_iff key_of_def)
  moreover have "set (m_T1Queue s' @ m_T2Queue s') = insert g (set (m_T1Queue s @ m_T2Queue s))"
    using assms(4,5) by simp
  ultimately show ?thesis
    using index_ok_add[of "key_of (heap s)" g "m_T1T2map s" "set (m_T1Queue s @ m_T2Queue s)"]
      assms(1,2,7)
    by (simp only: wf_index_alt)
qed

lemma remove1_split: "distinct (xs @ g # ys) \<Longrightarrow> remove1 g (xs @ g # ys) = xs @ ys"
  by (simp add: remove1_append)

lemma wf_lists_adapt_q [simp]: "wf_lists (adapt_q c s) = wf_lists s"
  by (rule wf_lists_cong) (simp_all add: adapt_q_def)

lemma wf_index_adapt_q [simp]: "wf_index pend (adapt_q c s) = wf_index pend s"
  by (rule wf_index_cong) (simp_all add: adapt_q_def)

lemma wf_install:
  assumes "wf_lists s" "wf_index (Some key) s"
  shows "wf_lists (install c key v s)" "wf_index None (install c key v s)"
proof -
  have "wf_lists (install c key v s) \<and> wf_index None (install c key v s)"
  proof (cases "map_of (m_B1B2map s) key")
    case None
    then show ?thesis using wf_install_miss[OF assms] by simp
  next
    case (Some g)
    have kg: "key_of (heap s) g = key" by (rule wf_ghost_lookup(2)[OF assms(1) Some])
    have d: "distinct (all_lists s)" by (rule wf_listsD(3)[OF assms(1)])
    show ?thesis
    proof (cases "firstList (heap s g)")
      case True
      from wf_ghost_in_B1[OF assms(1) Some True] obtain xs ys where
        B1: "m_B1List s = xs @ g # ys" by (auto dest: split_list)
      have r: "remove1 g (m_B1List s) = xs @ ys"
        using d B1 by (simp add: all_lists_def remove1_append)
      have "wf_lists (install c key v s) = wf_lists (s\<lparr>heap := (heap s)(g := (heap s g)\<lparr>page := v, referenceBit := False, longBit := True\<rparr>),
         m_numLong := m_numLong s + 1,
         m_T1Queue := m_T1Queue s @ [g],
         m_B1List := xs @ ys,
         m_B1ListSize := m_B1ListSize s - 1,
         m_B1B2map := B1B2map_erase key (m_B1B2map s)\<rparr>)"
        by (rule wf_lists_cong) (simp_all add: install_B1[OF Some True] r)
      moreover have "wf_index None (install c key v s)"
        by (rule wf_index_revive[OF assms(2) kg, where e = "(heap s g)\<lparr>page := v, referenceBit := False, longBit := True\<rparr>"])
           (simp_all add: install_B1[OF Some True] kg[unfolded key_of_def])
      ultimately show ?thesis using wf_lists_revive_B1[OF assms(1) B1 kg] by simp
    next
      case False
      from wf_ghost_in_B2[OF assms(1) Some False] obtain xs ys where
        B2: "m_B2List s = xs @ g # ys" by (auto dest: split_list)
      have r: "remove1 g (m_B2List s) = xs @ ys"
        using d B2 by (simp add: all_lists_def remove1_append)
      have "wf_lists (install c key v s) = wf_lists (s\<lparr>heap := (heap s)(g := (heap s g)\<lparr>page := v, firstList := True,
                                           referenceBit := False, longBit := True\<rparr>),
         m_numLong := m_numLong s + 1,
         m_T1Queue := m_T1Queue s @ [g],
         m_B2List := xs @ ys,
         m_B2ListSize := m_B2ListSize s - 1,
         m_B1B2map := B1B2map_erase key (m_B1B2map s)\<rparr>)"
        unfolding install_B2[OF Some False] wf_lists_adapt_q
        by (rule wf_lists_cong) (simp_all add: r)
      moreover have "wf_index None (install c key v s)"
        unfolding install_B2[OF Some False] wf_index_adapt_q
        by (rule wf_index_revive[OF assms(2) kg, where e = "(heap s g)\<lparr>page := v, firstList := True, referenceBit := False, longBit := True\<rparr>"])
           (simp_all add: kg[unfolded key_of_def])
      ultimately show ?thesis using wf_lists_revive_B2[OF assms(1) B2 kg] by simp
    qed
  qed
  then show "wf_lists (install c key v s)" "wf_index None (install c key v s)" by simp_all
qed

lemma index_ok_pending:
  assumes "index_ok None R A f" "R key = None"
  shows "index_ok (Some key) (R(key \<mapsto> x)) A f"
proof -
  have "key \<notin> f ` A"
  proof
    assume "key \<in> f ` A"
    then obtain a where "a \<in> A" "f a = key" by auto
    then have "R key = Some a" using assms(1) by (simp add: index_ok_def)
    then show False using assms(2) by simp
  qed
  then show ?thesis using assms(1) unfolding index_ok_def by auto
qed

lemma wf_usage_only:
  assumes "usage_only s s'"
  shows "wf_lists s' = wf_lists s" "wf_index pend s' = wf_index pend s"
proof -
  from assms obtain u r where s': "s' = s\<lparr>m_usage := u, released := r\<rparr>" by (rule usage_onlyE)
  show "wf_lists s' = wf_lists s" by (rule wf_lists_cong) (simp_all add: s')
  show "wf_index pend s' = wf_index pend s" by (rule wf_index_cong) (simp_all add: s')
qed

lemma usage_only_Handle_ctor: "usage_only s (snd (Handle_ctor s c key v))"
  by (simp add: Handle_ctor_def usage_only_IncUsage)

lemma wf_InternalInsert:
  assumes "InternalInsert s key v acquired = Some (h, s')" "wf_lists s" "wf_index None s"
  shows "wf_lists s'" "wf_index None s'"
proof -
  have "wf_lists s' \<and> wf_index None s'"
  proof (cases "m_T1T2map s key")
    case (Some a)
    then have "s' = snd (Handle_ctor s True key (page (heap s a)))"
      using assms(1) by (simp add: InternalInsert_hit)
    then show ?thesis
      using wf_usage_only[OF usage_only_Handle_ctor[of s True key "page (heap s a)"]] assms(2,3)
      by simp
  next
    case None
    from assms(1) None obtain s1 s2 v' where
      s1: "s1 = IncUsage (s\<lparr>m_T1T2map := (m_T1T2map s)(key \<mapsto> 0)\<rparr>) key v'"
      and s2: "(if IsFull s1 then replace_page (effective_capacity s1) key s1 else Some s1) = Some s2"
      and res: "(h, s') = Handle_ctor ((install (effective_capacity s1) key v' s2)
         \<lparr>m_usedMemory := m_usedMemory (install (effective_capacity s1) key v' s2)
              + CacheGetValueSize (m_interface (install (effective_capacity s1) key v' s2)) v'\<rparr>)
         True key v'"
      by (rule InternalInsert_missE)
    let ?s0 = "s\<lparr>m_T1T2map := (m_T1T2map s)(key \<mapsto> 0)\<rparr>"
    have "wf_lists ?s0" using assms(2) by simp
    moreover have "wf_index (Some key) ?s0"
      using index_ok_pending[OF assms(3)[unfolded wf_index_alt] None, of 0]
      by (simp add: wf_index_alt)
    ultimately have w1: "wf_lists s1" "wf_index (Some key) s1"
      using wf_usage_only[OF usage_only_IncUsage[of ?s0 key v']] by (simp_all add: s1)
    have w2: "wf_lists s2 \<and> wf_index (Some key) s2"
    proof (cases "IsFull s1")
      case True
      then show ?thesis using s2 wf_replace_page[OF _ w1] by simp
    next
      case False
      then show ?thesis using s2 w1 by simp
    qed
    let ?s3 = "install (effective_capacity s1) key v' s2"
    have w3: "wf_lists ?s3" "wf_index None ?s3"
      using wf_install[of s2 key] w2 by simp_all
    let ?s4 = "?s3\<lparr>m_usedMemory := m_usedMemory ?s3 + CacheGetValueSize (m_interface ?s3) v'\<rparr>"
    have w4: "wf_lists ?s4" "wf_index None ?s4" using w3 by simp_all
    have "s' = snd (Handle_ctor ?s4 True key v')" using res by (metis snd_conv)
    then show ?thesis
      using wf_usage_only[OF usage_only_Handle_ctor[of ?s4 True key v']] w4 by simp
  qed
  then show "wf_lists s'" "wf_index None s'" by simp_all
qed

lemma proj_upd_triv:
  "(is_second h)(a := \<not> is_first h a) = is_second h"
  "(is_short h)(a := \<not> is_long h a) = is_short h"
  by (simp_all add: fun_eq_iff)

lemma wf_touch_bit:
  assumes "wf_lists s" "wf_index None s"
  shows "wf_lists (s\<lparr>heap := (heap s)(a := (heap s a)\<lparr>referenceBit := True\<rparr>)\<rparr>)"
        "wf_index None (s\<lparr>heap := (heap s)(a := (heap s a)\<lparr>referenceBit := True\<rparr>)\<rparr>)"
proof -
  show "wf_lists (s\<lparr>heap := (heap s)(a := (heap s a)\<lparr>referenceBit := True\<rparr>)\<rparr>)"
    using assms(1) unfolding wf_lists_def all_lists_def by (simp add: proj_fold proj_upd_triv)
  show "wf_index None (s\<lparr>heap := (heap s)(a := (heap s a)\<lparr>referenceBit := True\<rparr>)\<rparr>)"
    using assms(2) unfolding wf_index_def by (simp add: proj_fold)
qed

lemma wf_Clear:
  assumes "Clear s = Some s'"
  shows "wf_lists s'" "wf_index None s'"
proof -
  from assms obtain t where "s' = t\<lparr>m_T2Queue := [], m_B1List := [], m_B1ListSize := 0,
                       m_B2List := [], m_B2ListSize := 0, m_p := 0, m_q := 0,
                       m_numShort := 0, m_numLong := 0, m_usedMemory := 0,
                       m_T1T2map := Map.empty, m_B1B2map := []\<rparr>" "m_T1Queue t = []"
    by (auto simp: Clear_def split: option.splits elim!: Clear_queue_shape)
  then show "wf_lists s'" "wf_index None s'"
    by (simp_all add: wf_lists_def wf_index_def all_lists_def)
qed

lemma wf_Cache_ctor:
  "wf_lists (Cache_ctor i n m)" "wf_index None (Cache_ctor i n m)"
  by (simp_all add: wf_lists_def wf_index_def all_lists_def Cache_ctor_def)

lemma wf_apply_op:
  assumes "apply_op s x = Some s'" "wf_lists s" "wf_index None s"
  shows "wf_lists s' \<and> wf_index None s'"
proof (cases x)
  case (Op_FindOrCreate key acquired)
  show ?thesis
  proof (cases "m_T1T2map s key")
    case None
    then obtain h where "InternalInsert s key nullptr acquired = Some (h, s')"
      using assms(1) Op_FindOrCreate by (auto simp: FindOrCreate_def)
    from wf_InternalInsert[OF this assms(2,3)] show ?thesis by simp
  next
    case (Some r)
    let ?s1 = "s\<lparr>heap := (heap s)(r := (heap s r)\<lparr>referenceBit := True\<rparr>)\<rparr>"
    have "s' = snd (Handle_ctor ?s1 True key (page (heap ?s1 r)))"
      using assms(1) Op_FindOrCreate Some by (auto simp: FindOrCreate_def Let_def)
    then show ?thesis
      using wf_usage_only[OF usage_only_Handle_ctor[of ?s1 True key "page (heap ?s1 r)"]]
        wf_touch_bit[OF assms(2,3), of r] by simp
  qed
next
  case (Op_IsInCache key)
  show ?thesis
  proof (cases "m_T1T2map s key")
    case None
    then show ?thesis using assms Op_IsInCache by (simp add: IsInCache_def)
  next
    case (Some r)
    then have "s' = snd (Handle_ctor s True key (page (heap s r)))"
      using assms(1) Op_IsInCache by (simp add: IsInCache_def)
    then show ?thesis
      using wf_usage_only[OF usage_only_Handle_ctor[of s True key "page (heap s r)"]] assms(2,3)
      by simp
  qed
next
  case (Op_InsertIntoCache key v acquired)
  then obtain h where "InternalInsert s key v acquired = Some (h, s')"
    using assms(1) by (auto simp: InsertIntoCache_def)
  from wf_InternalInsert[OF this assms(2,3)] show ?thesis by simp
next
  case (Op_FindOrCreate_temporary key acquired)
  then obtain h t where t: "FindOrCreate s key acquired = Some (h, t)"
    and d: "map_option snd (Handle_dtor t h) = Some s'"
    using assms(1) by (auto split: option.splits)
  have wt: "wf_lists t \<and> wf_index None t"
  proof (cases "m_T1T2map s key")
    case None
    then have "InternalInsert s key nullptr acquired = Some (h, t)"
      using t by (auto simp: FindOrCreate_def)
    from wf_InternalInsert[OF this assms(2,3)] show ?thesis by simp
  next
    case (Some r)
    let ?s1 = "s\<lparr>heap := (heap s)(r := (heap s r)\<lparr>referenceBit := True\<rparr>)\<rparr>"
    have "t = snd (Handle_ctor ?s1 True key (page (heap ?s1 r)))"
      using t Some by (auto simp: FindOrCreate_def Let_def)
    then show ?thesis
      using wf_usage_only[OF usage_only_Handle_ctor[of ?s1 True key "page (heap ?s1 r)"]]
        wf_touch_bit[OF assms(2,3), of r] by simp
  qed
  have "usage_only t s'"
    using d
    by (auto simp: Handle_dtor_def Handle_Release_def split: if_splits option.splits
             dest: usage_only_DecUsage)
  from wf_usage_only[OF this] wt show ?thesis by simp
next
  case Op_Clear
  then show ?thesis using assms(1) wf_Clear by auto
next
  case (Op_Handle_copy h)
  then have "usage_only s s'"
    using assms(1) by (auto simp: Handle_copy_def usage_only_IncUsage)
  from wf_usage_only[OF this] assms(2,3) show ?thesis by simp
next
  case (Op_Handle_Release h)
  then have "usage_only s s'"
    using assms(1)
    by (auto simp: Handle_Release_def split: if_splits option.splits dest: usage_only_DecUsage)
  from wf_usage_only[OF this] assms(2,3) show ?thesis by simp
qed

lemma wf_run:
  "run s xs = Some s' \<Longrightarrow> wf_lists s \<Longrightarrow> wf_index None s \<Longrightarrow> wf_lists s' \<and> wf_index None s'"
proof (induction xs arbitrary: s)
  case Nil
  then show ?case by simp
next
  case (Cons x xs)
  from Cons.prems(1) obtain t where t: "apply_op s x = Some t" "run t xs = Some s'"
    by (auto split: option.splits)
  from wf_apply_op[OF t(1) Cons.prems(2,3)] Cons.IH[OF t(2)] show ?case by simp
qed

lemma wf_reachable:
  assumes "run (Cache_ctor i n m) ops = Some s"
  shows "wf_lists s" "wf_index None s"
  using wf_run[OF assms wf_Cache_ctor] by simp_all

lemma filter_all: "list_all P xs \<Longrightarrow> filter P xs = xs"
  by (induction xs) auto

lemma filter_none: "list_all P xs \<Longrightarrow> filter (\<lambda>x. \<not> P x) xs = []"
  by (induction xs) auto

lemma evict_returns:
  assumes "\<not> GetUsage s (pageKey (heap s a)) (page (heap s a)) > 1"
  shows "evict s a \<noteq> None"
  using assms by (simp add: evict_def Let_def DecUsage_eq waits_def split: prod.splits)

lemma demote_returns: "demote s \<noteq> None"
proof -
  have ev: "evict t a \<noteq> None"
    if "unpinned s a" "m_usage t = m_usage s" "m_interface t = m_interface s" "heap t = heap s"
    for t a
    using that by (intro evict_returns) (simp add: unpinned_def GetUsage_def)
  show ?thesis
    unfolding demote_def Let_def
    by (auto split: option.splits if_splits dest!: extract_SomeE intro!: ev[simplified] simp: ev)
qed

lemma wf_ghost_length:
  assumes "wf_lists s"
  shows "length (m_B1B2map s) = length (m_B1List s) + length (m_B2List s)"
proof -
  let ?L = "m_B1List s @ m_B2List s"
  have dL: "distinct ?L" using wf_listsD(3)[OF assms] by (simp add: all_lists_def)
  have "distinct (m_B1B2map s)" using wf_listsD(11)[OF assms] by (simp add: distinct_map)
  then have "length (m_B1B2map s) = card (set (m_B1B2map s))" by (simp add: distinct_card)
  also have "\<dots> = card (set (zip (map (key_of (heap s)) ?L) ?L))"
    using wf_listsD(12)[OF assms] by simp
  also have "\<dots> = length (zip (map (key_of (heap s)) ?L) ?L)"
    using dL by (intro distinct_card distinct_zipI2)
  finally show ?thesis by simp
qed

lemma u64_nonneg: "0 \<le> u64 x" and u64_small: "0 \<le> x \<Longrightarrow> x < 2 ^ 64 \<Longrightarrow> u64 x = x"
  by (simp_all add: u64_def)

lemma history_replace_returns:
  assumes "wf_lists t" "u64 (int c + 1) \<noteq> 0"
  shows "history_replace c key t \<noteq> None"
proof -
  have sz: "m_B1ListSize t = int (length (m_B1List t))" "m_B2ListSize t = int (length (m_B2List t))"
    using wf_listsD(1,2)[OF assms(1)] by simp_all
  have len: "length (m_B1B2map t) = length (m_B1List t) + length (m_B2List t)"
    by (rule wf_ghost_length[OF assms(1)])
  have pos: "0 < u64 (int c + 1)" using assms(2) u64_nonneg[of "int c + 1"] by linarith
  show ?thesis
  proof (cases "m_B1List t = [] \<and> m_B2List t = []")
    case True
    then have "\<not> history_cond c key t"
      using len pos by (simp add: history_cond_def i32_def u64_def)
    then show ?thesis by (simp add: history_replace_def)
  next
    case False
    then show ?thesis
      using sz by (auto simp: history_replace_def Max_T_def split: if_splits)
  qed
qed

lemma wf_pending:
  assumes "wf_lists s" "wf_index None s" "m_T1T2map s key = None"
  shows "wf_lists (IncUsage (s\<lparr>m_T1T2map := (m_T1T2map s)(key \<mapsto> 0)\<rparr>) key v)"
        "wf_index (Some key) (IncUsage (s\<lparr>m_T1T2map := (m_T1T2map s)(key \<mapsto> 0)\<rparr>) key v)"
proof -
  let ?s0 = "s\<lparr>m_T1T2map := (m_T1T2map s)(key \<mapsto> 0)\<rparr>"
  have "wf_lists ?s0" using assms(1) by simp
  moreover have "wf_index (Some key) ?s0"
    using index_ok_pending[OF assms(2)[unfolded wf_index_alt] assms(3), of 0]
    by (simp add: wf_index_alt)
  ultimately show "wf_lists (IncUsage ?s0 key v)" "wf_index (Some key) (IncUsage ?s0 key v)"
    using wf_usage_only[OF usage_only_IncUsage[of ?s0 key v]] by simp_all
qed

lemma IncUsage_fields [simp]:
  "m_T1Queue (IncUsage s k v) = m_T1Queue s" "m_T2Queue (IncUsage s k v) = m_T2Queue s"
  "m_B1List (IncUsage s k v) = m_B1List s" "m_B2List (IncUsage s k v) = m_B2List s"
  "m_B1B2map (IncUsage s k v) = m_B1B2map s" "m_T1T2map (IncUsage s k v) = m_T1T2map s"
  "m_maxNumElements (IncUsage s k v) = m_maxNumElements s"
  "m_maxUsedMemory (IncUsage s k v) = m_maxUsedMemory s"
  "m_usedMemory (IncUsage s k v) = m_usedMemory s" "heap (IncUsage s k v) = heap s"
  "m_p (IncUsage s k v) = m_p s" "m_q (IncUsage s k v) = m_q s"
  "m_numShort (IncUsage s k v) = m_numShort s" "m_numLong (IncUsage s k v) = m_numLong s"
  "m_B1ListSize (IncUsage s k v) = m_B1ListSize s" "m_B2ListSize (IncUsage s k v) = m_B2ListSize s"
  "m_interface (IncUsage s k v) = m_interface s" "heap_next (IncUsage s k v) = heap_next s"
  by (simp_all add: IncUsage_def Let_def)

lemma IsFull_pending [simp]:
  "IsFull (IncUsage (s\<lparr>m_T1T2map := R\<rparr>) key v) = IsFull s"
  "effective_capacity (IncUsage (s\<lparr>m_T1T2map := R\<rparr>) key v) = effective_capacity s"
  by (simp_all add: IsFull_def effective_capacity_def)

text \<open>The states of an insertion of a key that is not resident: after the key has been
  reserved and the value counted, and before the installation.\<close>

definition insert_start :: "'k Cache \<Rightarrow> 'k \<Rightarrow> ptr \<Rightarrow> 'k Cache" where
  "insert_start s key v = IncUsage (s\<lparr>m_T1T2map := (m_T1T2map s)(key \<mapsto> 0)\<rparr>) key v"

definition before_install :: "'k Cache \<Rightarrow> 'k \<Rightarrow> ptr \<Rightarrow> 'k Cache option" where
  "before_install s key v =
     (if IsFull s then replace_page (effective_capacity s) key (insert_start s key v)
      else Some (insert_start s key v))"

definition insert_finish :: "'k Cache \<Rightarrow> 'k \<Rightarrow> ptr \<Rightarrow> 'k Cache \<Rightarrow> 'k Handle \<times> 'k Cache" where
  "insert_finish s key v t =
     Handle_ctor ((install (effective_capacity s) key v t)
        \<lparr>m_usedMemory := m_usedMemory (install (effective_capacity s) key v t)
              + CacheGetValueSize (m_interface (install (effective_capacity s) key v t)) v\<rparr>)
       True key v"

lemma InternalInsert_miss:
  assumes "m_T1T2map s key = None"
  shows "InternalInsert s key v acquired =
     (case before_install s key (if v = nullptr then acquired else v) of
        None \<Rightarrow> None
      | Some t \<Rightarrow> Some (insert_finish s key (if v = nullptr then acquired else v) t))"
  using assms
  by (simp add: InternalInsert_def Let_def before_install_def insert_finish_def insert_start_def
        split: option.splits)

lemma wf_before_install:
  assumes "wf_lists s" "wf_index None s" "m_T1T2map s key = None" "before_install s key v = Some t"
  shows "wf_lists t" "wf_index (Some key) t"
proof -
  note w = wf_pending[OF assms(1-3), of v, folded insert_start_def]
  have "wf_lists t \<and> wf_index (Some key) t"
  proof (cases "IsFull s")
    case True
    then have "replace_page (effective_capacity s) key (insert_start s key v) = Some t"
      using assms(4) by (simp add: before_install_def)
    from wf_replace_page[OF this w] show ?thesis by simp
  next
    case False
    then show ?thesis using assms(4) w by (simp add: before_install_def)
  qed
  then show "wf_lists t" "wf_index (Some key) t" by simp_all
qed

lemma before_install_returns:
  assumes "wf_lists s" "wf_index None s" "m_T1T2map s key = None"
    "u64 (int (length (m_T1Queue s) + length (m_T2Queue s)) + 1) \<noteq> 0"
  shows "before_install s key v \<noteq> None"
proof (cases "IsFull s")
  case False
  then show ?thesis by (simp add: before_install_def)
next
  case True
  note w = wf_pending[OF assms(1-3), of v, folded insert_start_def]
  let ?c = "effective_capacity s"
  have c: "?c = length (m_T1Queue s) + length (m_T2Queue s)"
    using True by (simp add: effective_capacity_def)
  obtain t where t: "demote (sweepT1 ?c (sweepT2 ?c (insert_start s key v))) = Some t"
    using demote_returns by blast
  have "wf_lists t"
    by (rule wf_demote(1)[OF t, where pend = "Some key"])
       (simp_all add: w wf_lists_sweepT1 wf_lists_sweepT2 wf_index_sweepT1 wf_index_sweepT2)
  then have "history_replace ?c key t \<noteq> None"
    using assms(4) c by (intro history_replace_returns) simp_all
  then show ?thesis using True t by (simp add: before_install_def replace_page_def)
qed

lemma install_result:
  assumes "wf_lists t"
  shows "\<exists>a. m_T1T2map (install c key v t) key = Some a
           \<and> m_T1Queue (install c key v t) = m_T1Queue t @ [a]
           \<and> pageKey (heap (install c key v t) a) = key
           \<and> page (heap (install c key v t) a) = v
           \<and> \<not> referenceBit (heap (install c key v t) a)
           \<and> firstList (heap (install c key v t) a)"
proof (cases "map_of (m_B1B2map t) key")
  case None
  then show ?thesis by (simp add: install_miss)
next
  case (Some g)
  have kg: "pageKey (heap t g) = key"
    using wf_ghost_lookup(2)[OF assms Some] by (simp add: key_of_def)
  show ?thesis
  proof (cases "firstList (heap t g)")
    case True
    then show ?thesis using kg by (simp add: install_B1[OF Some True])
  next
    case False
    then show ?thesis using kg by (simp add: install_B2[OF Some False] adapt_q_def)
  qed
qed

lemma Max_T_max: "Max_T x y = max x y" and Min_T_min: "Min_T x y = min x y"
  by (simp_all add: Max_T_def Min_T_def max_def min_def)

lemma u32_small: "0 \<le> x \<Longrightarrow> x < 2 ^ 32 \<Longrightarrow> u32 x = x"
  by (simp add: u32_def)

lemma i32_small: "- (2 ^ 31) \<le> x \<Longrightarrow> x < 2 ^ 31 \<Longrightarrow> i32 x = x"
  by (simp add: i32_def)

lemma i32_u64_small:
  assumes "- (2 ^ 31) \<le> x" "x < 2 ^ 31"
  shows "i32 (u64 x) = x"
proof -
  have "(x mod 2 ^ 64 + 2 ^ 31) mod 2 ^ 32 = (x + 2 ^ 31) mod (2 ^ 32 :: int)"
  proof -
    have "(2 ^ 32 :: int) dvd 2 ^ 64" by (rule le_imp_power_dvd) simp
    then have "(x mod 2 ^ 64) mod 2 ^ 32 = x mod (2 ^ 32 :: int)" by (rule mod_mod_cancel)
    then show ?thesis by (metis mod_add_left_eq)
  qed
  then show ?thesis using assms by (simp add: i32_def u64_def)
qed

lemma int_div_nonneg: "0 \<le> a \<Longrightarrow> 0 < b \<Longrightarrow> int_div a b = a div b"
  by (cases "a = 0") (simp_all add: int_div_def)

lemma map_of_B1B2map_erase [simp]: "map_of (B1B2map_erase k m) k = None"
  by (auto simp: B1B2map_erase_def map_of_eq_None_iff)

lemma Handle_ctor_fields [simp]:
  "m_T1Queue (snd (Handle_ctor s c k v)) = m_T1Queue s" "m_T2Queue (snd (Handle_ctor s c k v)) = m_T2Queue s"
  "m_B1List (snd (Handle_ctor s c k v)) = m_B1List s" "m_B2List (snd (Handle_ctor s c k v)) = m_B2List s"
  "m_B1B2map (snd (Handle_ctor s c k v)) = m_B1B2map s" "m_T1T2map (snd (Handle_ctor s c k v)) = m_T1T2map s"
  "heap (snd (Handle_ctor s c k v)) = heap s"
  "m_p (snd (Handle_ctor s c k v)) = m_p s" "m_q (snd (Handle_ctor s c k v)) = m_q s"
  "m_numShort (snd (Handle_ctor s c k v)) = m_numShort s" "m_numLong (snd (Handle_ctor s c k v)) = m_numLong s"
  "m_B1ListSize (snd (Handle_ctor s c k v)) = m_B1ListSize s"
  "m_B2ListSize (snd (Handle_ctor s c k v)) = m_B2ListSize s"
  by (simp_all add: Handle_ctor_def)

lemma T2_step_ghosts [simp]:
  "m_B1List (T2_step c s) = m_B1List s" "m_B2List (T2_step c s) = m_B2List s"
  by (simp_all add: T2_step_def adapt_q_def Let_def)

lemma T1_step_ghosts [simp]:
  "m_B1List (T1_step c s) = m_B1List s" "m_B2List (T1_step c s) = m_B2List s"
  by (simp_all add: T1_step_def Let_def)

lemma sweepT2_B1List [simp]: "m_B1List (sweepT2 c s) = m_B1List s"
  by (induction c s rule: sweepT2.induct) (subst sweepT2.simps, simp)

lemma sweepT2_B2List [simp]: "m_B2List (sweepT2 c s) = m_B2List s"
  by (induction c s rule: sweepT2.induct) (subst sweepT2.simps, simp)

lemma sweepT1_B1List [simp]: "m_B1List (sweepT1 c s) = m_B1List s"
  by (induction c s rule: sweepT1.induct) (subst sweepT1.simps, simp)

lemma sweepT1_B2List [simp]: "m_B2List (sweepT1 c s) = m_B2List s"
  by (induction c s rule: sweepT1.induct) (subst sweepT1.simps, simp)

lemma demote_ghosts:
  assumes "demote s = Some t"
  shows "length (m_B1List t) + length (m_B2List t) \<le> length (m_B1List s) + length (m_B2List s) + 1"
  using assms by (rule demoteE) simp_all

lemma map_of_B1B2map_erase_None:
  "map_of m key = None \<Longrightarrow> map_of (B1B2map_erase k m) key = None"
  by (auto simp: B1B2map_erase_def map_of_eq_None_iff)

lemma install_ghosts:
  assumes "wf_lists t"
  shows "length (m_B1List (install c key v t)) + length (m_B2List (install c key v t))
         = length (m_B1List t) + length (m_B2List t)
           - (if map_of (m_B1B2map t) key = None then 0 else 1)"
proof (cases "map_of (m_B1B2map t) key")
  case None
  then show ?thesis by (simp add: install_miss)
next
  case (Some g)
  show ?thesis
  proof (cases "firstList (heap t g)")
    case True
    have "g \<in> set (m_B1List t)" by (rule wf_ghost_in_B1[OF assms Some True])
    moreover from this obtain n where "length (m_B1List t) = Suc n"
      by (cases "m_B1List t") auto
    ultimately show ?thesis using Some by (simp add: install_B1[OF Some True] length_remove1)
  next
    case False
    have "g \<in> set (m_B2List t)" by (rule wf_ghost_in_B2[OF assms Some False])
    moreover from this obtain n where "length (m_B2List t) = Suc n"
      by (cases "m_B2List t") auto
    ultimately show ?thesis
      using Some by (simp add: install_B2[OF Some False] length_remove1 adapt_q_def)
  qed
qed

lemma history_replace_exact:
  assumes "wf_lists t" "length (m_B1List t) + length (m_B2List t) < 2 ^ 31" "c < 2 ^ 31"
  shows "history_replace c key t =
     Some (if map_of (m_B1B2map t) key = None
              \<and> c + 1 \<le> length (m_B1List t) + length (m_B2List t)
           then if max 0 (m_q t) < int (length (m_B1List t)) \<or> m_B2List t = []
                then t\<lparr>m_B1List := butlast (m_B1List t),
                       m_B1ListSize := m_B1ListSize t - 1,
                       m_B1B2map := B1B2map_erase (pageKey (heap t (last (m_B1List t))))
                                      (m_B1B2map t)\<rparr>
                else t\<lparr>m_B2List := butlast (m_B2List t),
                       m_B2ListSize := m_B2ListSize t - 1,
                       m_B1B2map := B1B2map_erase (pageKey (heap t (last (m_B2List t))))
                                      (m_B1B2map t)\<rparr>
           else t)"
    and "c + 1 \<le> length (m_B1List t) + length (m_B2List t) \<Longrightarrow>
         max 0 (m_q t) < int (length (m_B1List t)) \<or> m_B2List t = [] \<Longrightarrow> m_B1List t \<noteq> []"
proof -
  have sz: "m_B1ListSize t = int (length (m_B1List t))" "m_B2ListSize t = int (length (m_B2List t))"
    using wf_listsD(1,2)[OF assms(1)] by simp_all
  have len: "length (m_B1B2map t) = length (m_B1List t) + length (m_B2List t)"
    by (rule wf_ghost_length[OF assms(1)])
  have a: "i32 (int (length (m_B1B2map t))) = int (length (m_B1List t) + length (m_B2List t))"
    unfolding len using assms(2) by (intro i32_small) simp_all
  have b: "u64 (int (length (m_B1List t) + length (m_B2List t)))
           = int (length (m_B1List t) + length (m_B2List t))"
    using assms(2) by (intro u64_small) simp_all
  have c: "u64 (int c + 1) = int c + 1" using assms(3) by (intro u64_small) simp_all
  have hc: "history_cond c key t \<longleftrightarrow> map_of (m_B1B2map t) key = None
              \<and> c + 1 \<le> length (m_B1List t) + length (m_B2List t)"
    unfolding history_cond_def a b c by auto
  show ne: "c + 1 \<le> length (m_B1List t) + length (m_B2List t) \<Longrightarrow>
         max 0 (m_q t) < int (length (m_B1List t)) \<or> m_B2List t = [] \<Longrightarrow> m_B1List t \<noteq> []"
    by auto
  show "history_replace c key t =
     Some (if map_of (m_B1B2map t) key = None
              \<and> c + 1 \<le> length (m_B1List t) + length (m_B2List t)
           then if max 0 (m_q t) < int (length (m_B1List t)) \<or> m_B2List t = []
                then t\<lparr>m_B1List := butlast (m_B1List t),
                       m_B1ListSize := m_B1ListSize t - 1,
                       m_B1B2map := B1B2map_erase (pageKey (heap t (last (m_B1List t))))
                                      (m_B1B2map t)\<rparr>
                else t\<lparr>m_B2List := butlast (m_B2List t),
                       m_B2ListSize := m_B2ListSize t - 1,
                       m_B1B2map := B1B2map_erase (pageKey (heap t (last (m_B2List t))))
                                      (m_B1B2map t)\<rparr>
           else t)"
    unfolding history_replace_def hc sz Max_T_max using ne by auto
qed

lemma trim_install_ghosts:
  assumes "wf_lists t" "length (m_B1List t) + length (m_B2List t) < 2 ^ 31" "c < 2 ^ 31"
    and "history_replace c key t = Some u" "wf_lists u"
  shows "length (m_B1List (install c' key v u)) + length (m_B2List (install c' key v u))
         \<le> max c (length (m_B1List t) + length (m_B2List t) - 1)"
proof -
  let ?X = "t\<lparr>m_B1List := butlast (m_B1List t), m_B1ListSize := m_B1ListSize t - 1,
               m_B1B2map := B1B2map_erase (pageKey (heap t (last (m_B1List t)))) (m_B1B2map t)\<rparr>"
  let ?Y = "t\<lparr>m_B2List := butlast (m_B2List t), m_B2ListSize := m_B2ListSize t - 1,
               m_B1B2map := B1B2map_erase (pageKey (heap t (last (m_B2List t)))) (m_B1B2map t)\<rparr>"
  let ?A = "map_of (m_B1B2map t) key = None \<and> c + 1 \<le> length (m_B1List t) + length (m_B2List t)"
  let ?B = "max 0 (m_q t) < int (length (m_B1List t)) \<or> m_B2List t = []"
  have "history_replace c key t = Some (if ?A then if ?B then ?X else ?Y else t)"
    by (rule history_replace_exact(1)[OF assms(1-3)])
  then have u: "u = (if ?A then if ?B then ?X else ?Y else t)" using assms(4) by simp
  note ne = history_replace_exact(2)[OF assms(1-3)]
  note ig = install_ghosts[OF assms(5), of c' key v]
  show ?thesis
  proof (cases ?A)
    case False
    then have ut: "u = t" unfolding u by (simp only: if_False simp_thms)
    show ?thesis
    proof (cases "map_of (m_B1B2map t) key")
      case None
      then show ?thesis using ig False unfolding ut by simp
    next
      case (Some g)
      then show ?thesis using ig unfolding ut by simp
    qed
  next
    case True
    have "length (m_B1List u) + length (m_B2List u)
          = length (m_B1List t) + length (m_B2List t) - 1"
    proof (cases ?B)
      case B1: True
      have "m_B1List t \<noteq> []" using ne True B1 by blast
      moreover have "u = ?X" unfolding u using True B1 by (simp only: if_True simp_thms)
      ultimately show ?thesis by (cases "m_B1List t") simp_all
    next
      case B2: False
      then have "m_B2List t \<noteq> []" by simp
      moreover have "u = ?Y" unfolding u using True B2 by (simp only: if_True if_False simp_thms)
      ultimately show ?thesis by (cases "m_B2List t") simp_all
    qed
    then show ?thesis using ig by simp
  qed
qed

lemma Handle_eta [simp]: "\<lparr>m_cache = m_cache x, m_key = m_key x, m_value = m_value x\<rparr> = x"
  by (cases x) simp

subsection \<open>Sizes on a run\<close>

text \<open>
  The number of resident entries, the number of ghosts, and what holds of them after \<open>k\<close>
  operations: at most \<open>k\<close> entries are resident, there are no more ghosts than resident
  entries, and \<open>p\<close> is between \<open>0\<close> and the larger of the configured limit and \<open>k\<close>.
\<close>

definition residents :: "'k Cache \<Rightarrow> nat" where
  "residents s = length (m_T1Queue s) + length (m_T2Queue s)"

definition ghosts :: "'k Cache \<Rightarrow> nat" where
  "ghosts s = length (m_B1List s) + length (m_B2List s)"

definition scale_inv :: "nat \<Rightarrow> 'k Cache \<Rightarrow> bool" where
  "scale_inv k s \<longleftrightarrow>
     residents s \<le> k \<and> ghosts s \<le> residents s
     \<and> 0 \<le> m_p s \<and> m_p s \<le> int (max (m_maxNumElements s) k)"

lemma scale_inv_cong:
  assumes "m_T1Queue s' = m_T1Queue s" "m_T2Queue s' = m_T2Queue s" "m_B1List s' = m_B1List s"
    "m_B2List s' = m_B2List s" "m_p s' = m_p s" "m_maxNumElements s' = m_maxNumElements s"
  shows "scale_inv k s' = scale_inv k s"
  using assms by (simp add: scale_inv_def residents_def ghosts_def)

lemma scale_usage_only:
  assumes "usage_only s s'"
  shows "scale_inv k s' = scale_inv k s" "m_maxNumElements s' = m_maxNumElements s"
proof -
  from assms obtain u r where s': "s' = s\<lparr>m_usage := u, released := r\<rparr>" by (rule usage_onlyE)
  show "scale_inv k s' = scale_inv k s" by (rule scale_inv_cong) (simp_all add: s')
  show "m_maxNumElements s' = m_maxNumElements s" by (simp add: s')
qed

lemma scale_inv_mono: "scale_inv k s \<Longrightarrow> k \<le> k' \<Longrightarrow> scale_inv k' s"
  by (auto simp: scale_inv_def)

lemma T2_step_sizes [simp]:
  "m_p (T2_step c s) = m_p s" "m_maxNumElements (T2_step c s) = m_maxNumElements s"
  "T2_cond s \<Longrightarrow> residents (T2_step c s) = residents s"
  by (cases "m_T2Queue s"; simp add: T2_step_def T2_cond_def adapt_q_def Let_def residents_def)+

lemma T1_step_sizes [simp]:
  "m_p (T1_step c s) = m_p s" "m_maxNumElements (T1_step c s) = m_maxNumElements s"
  "T1_cond s \<Longrightarrow> residents (T1_step c s) = residents s"
  by (cases "m_T1Queue s"; simp add: T1_step_def T1_cond_def Let_def residents_def)+

lemma sweepT2_p [simp]: "m_p (sweepT2 c s) = m_p s"
  by (induction c s rule: sweepT2.induct) (subst sweepT2.simps, simp)

lemma sweepT2_maxNumElements [simp]: "m_maxNumElements (sweepT2 c s) = m_maxNumElements s"
  by (induction c s rule: sweepT2.induct) (subst sweepT2.simps, simp)

lemma sweepT2_residents [simp]: "residents (sweepT2 c s) = residents s"
  by (induction c s rule: sweepT2.induct) (subst sweepT2.simps, simp)

lemma sweepT1_p [simp]: "m_p (sweepT1 c s) = m_p s"
  by (induction c s rule: sweepT1.induct) (subst sweepT1.simps, simp)

lemma sweepT1_maxNumElements [simp]: "m_maxNumElements (sweepT1 c s) = m_maxNumElements s"
  by (induction c s rule: sweepT1.induct) (subst sweepT1.simps, simp)

lemma sweepT1_residents [simp]: "residents (sweepT1 c s) = residents s"
  by (induction c s rule: sweepT1.induct) (subst sweepT1.simps, simp)

lemma demote_sizes:
  assumes "demote s = Some t"
  shows "m_p t = m_p s" "m_maxNumElements t = m_maxNumElements s"
    "residents t \<le> residents s" "residents s \<le> residents t + 1"
  using assms by (rule demoteE; simp add: residents_def)+

lemma history_replace_sizes:
  assumes "history_replace c key s = Some t"
  shows "m_p t = m_p s" "m_maxNumElements t = m_maxNumElements s" "residents t = residents s"
  using assms by (rule history_replaceE; simp add: residents_def)+

lemma insert_start_sizes [simp]:
  "m_p (insert_start s key v) = m_p s"
  "m_maxNumElements (insert_start s key v) = m_maxNumElements s"
  "residents (insert_start s key v) = residents s"
  "ghosts (insert_start s key v) = ghosts s"
  "m_B1List (insert_start s key v) = m_B1List s" "m_B2List (insert_start s key v) = m_B2List s"
  by (simp_all add: insert_start_def residents_def ghosts_def)

lemma before_install_sizes:
  assumes "before_install s key v = Some u"
  shows "m_p u = m_p s" "m_maxNumElements u = m_maxNumElements s"
    "residents u \<le> residents s" "residents s \<le> residents u + 1"
proof -
  have "m_p u = m_p s \<and> m_maxNumElements u = m_maxNumElements s
        \<and> residents u \<le> residents s \<and> residents s \<le> residents u + 1"
  proof (cases "IsFull s")
    case False
    then have "u = insert_start s key v" using assms by (simp add: before_install_def)
    then show ?thesis by simp
  next
    case True
    let ?c = "effective_capacity s"
    from True assms obtain d where
      d: "demote (sweepT1 ?c (sweepT2 ?c (insert_start s key v))) = Some d"
      and u: "history_replace ?c key d = Some u"
      by (auto simp: before_install_def replace_page_def split: option.splits)
    from demote_sizes[OF d] history_replace_sizes[OF u] show ?thesis by simp
  qed
  then show "m_p u = m_p s" "m_maxNumElements u = m_maxNumElements s"
    "residents u \<le> residents s" "residents s \<le> residents u + 1" by simp_all
qed

lemma install_sizes:
  "residents (install c key v t) = residents t + 1"
  "m_maxNumElements (install c key v t) = m_maxNumElements t"
  by (simp_all add: install_def adapt_q_def residents_def Let_def split: option.splits)

lemma install_p:
  assumes "0 \<le> m_p t" "0 \<le> i32 (int c)"
  shows "0 \<le> m_p (install c key v t)" "m_p (install c key v t) \<le> max (m_p t) (i32 (int c))"
  using assms
  by (auto simp: install_def adapt_q_def Let_def Max_T_max Min_T_min split: option.splits)

lemma effective_capacity_le:
  "effective_capacity s \<le> max (m_maxNumElements s) (residents s)"
  by (simp add: effective_capacity_def residents_def)

lemma insertion_ghosts:
  assumes "wf_lists s" "wf_index None s" "m_T1T2map s key = None"
    and "effective_capacity s < 2 ^ 31" "ghosts s + 1 < 2 ^ 31"
    and "before_install s key v = Some u"
  shows "ghosts (install c' key v' u)
         \<le> (if IsFull s then max (effective_capacity s) (ghosts s) else ghosts s)"
proof (cases "IsFull s")
  case False
  note w = wf_pending[OF assms(1-3), of v, folded insert_start_def]
  from False have u: "u = insert_start s key v" using assms(6) by (simp add: before_install_def)
  have "ghosts (install c' key v' u) \<le> ghosts u"
    unfolding ghosts_def install_ghosts[OF w(1), folded u] by simp
  then show ?thesis using False by (simp add: u)
next
  case True
  let ?c = "effective_capacity s"
  note w = wf_pending[OF assms(1-3), of v, folded insert_start_def]
  from True assms(6) obtain t where
    t: "demote (sweepT1 ?c (sweepT2 ?c (insert_start s key v))) = Some t"
    and u: "history_replace ?c key t = Some u"
    by (auto simp: before_install_def replace_page_def split: option.splits)
  have wt: "wf_lists t"
    by (rule wf_demote(1)[OF t, where pend = "Some key"])
       (simp_all add: w wf_lists_sweepT1 wf_lists_sweepT2 wf_index_sweepT1 wf_index_sweepT2)
  have gt: "ghosts t \<le> ghosts s + 1"
    using demote_ghosts[OF t] by (simp add: insert_start_def ghosts_def)
  then have small: "length (m_B1List t) + length (m_B2List t) < 2 ^ 31"
    using assms(5) by (simp add: ghosts_def)
  have wu: "wf_lists u" by (rule wf_before_install(1)[OF assms(1-3,6)])
  have "ghosts (install c' key v' u) \<le> max ?c (ghosts t - 1)"
    unfolding ghosts_def by (rule trim_install_ghosts[OF wt small assms(4) u wu])
  then show ?thesis using True gt by auto
qed

lemma InternalInsert_scale:
  assumes "InternalInsert s key v acquired = Some (h, s')" "m_T1T2map s key = None"
    and "wf_lists s" "wf_index None s"
    and "scale_inv k s" "m_maxNumElements s < 2 ^ 31" "Suc k < 2 ^ 31"
  shows "scale_inv (Suc k) s'" "m_maxNumElements s' = m_maxNumElements s"
proof -
  define v' where "v' = (if v = nullptr then acquired else v)"
  let ?c = "effective_capacity s"
  from assms(5) have r: "residents s \<le> k" and g: "ghosts s \<le> residents s"
    and p: "0 \<le> m_p s" "m_p s \<le> int (max (m_maxNumElements s) k)"
    by (simp_all add: scale_inv_def)
  have c: "?c \<le> max (m_maxNumElements s) k"
    using effective_capacity_le[of s] r by simp
  then have c31: "?c < 2 ^ 31" using assms(6,7) by simp
  have ic: "i32 (int ?c) = int ?c" using c31 by (intro i32_small) simp_all
  have "InternalInsert s key v acquired =
     (case before_install s key v' of None \<Rightarrow> None
      | Some t \<Rightarrow> Some (insert_finish s key v' t))"
    unfolding v'_def by (rule InternalInsert_miss[OF assms(2)])
  with assms(1) obtain u where u: "before_install s key v' = Some u"
    and res: "(h, s') = insert_finish s key v' u"
    by (auto split: option.splits)
  let ?i = "install ?c key v' u"
  have s': "s' = snd (Handle_ctor (?i\<lparr>m_usedMemory := m_usedMemory ?i
                        + CacheGetValueSize (m_interface ?i) v'\<rparr>) True key v')"
    using res by (simp add: insert_finish_def prod_eq_iff)
  note bs = before_install_sizes[OF u]
  have g31: "ghosts s + 1 < 2 ^ 31" using g r assms(7) by simp
  have gi: "ghosts ?i \<le> (if IsFull s then max ?c (ghosts s) else ghosts s)"
    by (rule insertion_ghosts[OF assms(3,4,2) c31 g31 u])
  have cfull: "IsFull s \<Longrightarrow> ?c = residents s"
    by (simp add: effective_capacity_def residents_def)
  have gi': "ghosts ?i \<le> residents s" using gi g cfull by (auto split: if_splits)
  have ri: "residents ?i = residents u + 1" by (rule install_sizes)
  have pi: "0 \<le> m_p ?i" "m_p ?i \<le> max (m_p s) (int ?c)"
    using install_p[of u ?c key v'] p(1) bs(1) ic by simp_all
  have eq: "residents s' = residents ?i" "ghosts s' = ghosts ?i" "m_p s' = m_p ?i"
    "m_maxNumElements s' = m_maxNumElements ?i"
    unfolding s' by (simp_all add: residents_def ghosts_def Handle_ctor_def)
  show "m_maxNumElements s' = m_maxNumElements s"
    using eq(4) bs(2) by (simp add: install_sizes)
  then show "scale_inv (Suc k) s'"
    unfolding scale_inv_def eq using ri bs(3,4) r gi' pi p(2) c by auto
qed

lemma Handle_ctor_scale:
  "scale_inv k (snd (Handle_ctor s c key v)) = scale_inv k s"
  "m_maxNumElements (snd (Handle_ctor s c key v)) = m_maxNumElements s"
  using scale_usage_only[OF usage_only_Handle_ctor[of s c key v]] by simp_all

lemma InternalInsert_scale_any:
  assumes "InternalInsert s key v acquired = Some (h, s')"
    and "wf_lists s" "wf_index None s"
    and "scale_inv k s" "m_maxNumElements s < 2 ^ 31" "Suc k < 2 ^ 31"
  shows "scale_inv (Suc k) s' \<and> m_maxNumElements s' = m_maxNumElements s"
proof (cases "m_T1T2map s key")
  case None
  from InternalInsert_scale[OF assms(1) None assms(2-6)] show ?thesis by simp
next
  case (Some a)
  then have "s' = snd (Handle_ctor s True key (page (heap s a)))"
    using assms(1) by (simp add: InternalInsert_hit)
  then show ?thesis using assms(4) by (simp add: Handle_ctor_scale scale_inv_mono)
qed

lemma FindOrCreate_scale:
  assumes "FindOrCreate s key acquired = Some (h, s')"
    and "wf_lists s" "wf_index None s"
    and "scale_inv k s" "m_maxNumElements s < 2 ^ 31" "Suc k < 2 ^ 31"
  shows "scale_inv (Suc k) s' \<and> m_maxNumElements s' = m_maxNumElements s"
proof (cases "m_T1T2map s key")
  case None
  then have "InternalInsert s key nullptr acquired = Some (h, s')"
    using assms(1) by (simp add: FindOrCreate_def)
  from InternalInsert_scale[OF this None assms(2-6)] show ?thesis by simp
next
  case (Some r)
  let ?s1 = "s\<lparr>heap := (heap s)(r := (heap s r)\<lparr>referenceBit := True\<rparr>)\<rparr>"
  have s': "s' = snd (Handle_ctor ?s1 True key (page (heap ?s1 r)))"
    using assms(1) Some by (auto simp: FindOrCreate_def Let_def)
  have "scale_inv k ?s1 = scale_inv k s" by (rule scale_inv_cong) simp_all
  then show ?thesis using assms(4) unfolding s' by (simp add: Handle_ctor_scale scale_inv_mono)
qed

lemma Handle_Release_scale:
  assumes "Handle_Release s h = Some (ok, h', s')"
  shows "scale_inv k s' = scale_inv k s" "m_maxNumElements s' = m_maxNumElements s"
proof -
  have "usage_only s s'"
    using assms
    by (auto simp: Handle_Release_def split: if_splits option.splits dest: usage_only_DecUsage)
  from scale_usage_only[OF this]
  show "scale_inv k s' = scale_inv k s" "m_maxNumElements s' = m_maxNumElements s" by simp_all
qed

lemma Clear_scale:
  assumes "Clear s = Some s'"
  shows "scale_inv k s'" "m_maxNumElements s' = m_maxNumElements s"
proof -
  from assms obtain t u r where s': "s' = t\<lparr>m_T2Queue := [], m_B1List := [], m_B1ListSize := 0,
                       m_B2List := [], m_B2ListSize := 0, m_p := 0, m_q := 0,
                       m_numShort := 0, m_numLong := 0, m_usedMemory := 0,
                       m_T1T2map := Map.empty, m_B1B2map := []\<rparr>" "m_T1Queue t = []"
    and t: "m_maxNumElements t = m_maxNumElements s"
    by (auto simp: Clear_def split: option.splits elim!: Clear_queue_shape)
  show "scale_inv k s'" by (simp add: s' scale_inv_def residents_def ghosts_def)
  show "m_maxNumElements s' = m_maxNumElements s" by (simp add: s' t)
qed

lemma scale_apply_op:
  assumes "apply_op s x = Some s'" "wf_lists s" "wf_index None s"
    and "scale_inv k s" "m_maxNumElements s < 2 ^ 31" "Suc k < 2 ^ 31"
  shows "scale_inv (Suc k) s' \<and> m_maxNumElements s' = m_maxNumElements s"
proof (cases x)
  case (Op_FindOrCreate key acquired)
  then obtain h where "FindOrCreate s key acquired = Some (h, s')"
    using assms(1) by auto
  from FindOrCreate_scale[OF this assms(2-6)] show ?thesis .
next
  case (Op_FindOrCreate_temporary key acquired)
  then obtain h t where t: "FindOrCreate s key acquired = Some (h, t)"
    and d: "map_option snd (Handle_dtor t h) = Some s'"
    using assms(1) by (auto split: option.splits)
  from d obtain ok h' where "Handle_Release t h = Some (ok, h', s')"
    by (auto simp: Handle_dtor_def split: option.splits)
  from Handle_Release_scale[OF this] FindOrCreate_scale[OF t assms(2-6)]
  show ?thesis by simp
next
  case (Op_IsInCache key)
  show ?thesis
  proof (cases "m_T1T2map s key")
    case None
    then show ?thesis using assms Op_IsInCache by (simp add: IsInCache_def scale_inv_mono)
  next
    case (Some r)
    then have "s' = snd (Handle_ctor s True key (page (heap s r)))"
      using assms(1) Op_IsInCache by (simp add: IsInCache_def)
    then show ?thesis using assms(4) by (simp add: Handle_ctor_scale scale_inv_mono)
  qed
next
  case (Op_InsertIntoCache key v acquired)
  then obtain h where "InternalInsert s key v acquired = Some (h, s')"
    using assms(1) by (auto simp: InsertIntoCache_def)
  from InternalInsert_scale_any[OF this assms(2-6)] show ?thesis .
next
  case Op_Clear
  then have "Clear s = Some s'" using assms(1) by simp
  from Clear_scale[OF this] show ?thesis by simp
next
  case (Op_Handle_copy h)
  then have "usage_only s s'"
    using assms(1) by (auto simp: Handle_copy_def usage_only_IncUsage)
  from scale_usage_only[OF this] assms(4) show ?thesis by (simp add: scale_inv_mono)
next
  case (Op_Handle_Release h)
  then obtain ok h' where "Handle_Release s h = Some (ok, h', s')"
    using assms(1) by auto
  from Handle_Release_scale[OF this] assms(4) show ?thesis by (simp add: scale_inv_mono)
qed

lemma scale_run:
  "run s xs = Some s' \<Longrightarrow> wf_lists s \<Longrightarrow> wf_index None s \<Longrightarrow> scale_inv k s
   \<Longrightarrow> m_maxNumElements s < 2 ^ 31 \<Longrightarrow> k + length xs < 2 ^ 31
   \<Longrightarrow> scale_inv (k + length xs) s' \<and> m_maxNumElements s' = m_maxNumElements s"
proof (induction xs arbitrary: s k)
  case Nil
  then show ?case by simp
next
  case (Cons x xs)
  from Cons.prems(1) obtain t where t: "apply_op s x = Some t" "run t xs = Some s'"
    by (auto split: option.splits)
  have k: "Suc k < 2 ^ 31" using Cons.prems(6) by simp
  note a = scale_apply_op[OF t(1) Cons.prems(2,3,4,5) k]
  note w = wf_apply_op[OF t(1) Cons.prems(2,3)]
  have "scale_inv (Suc k + length xs) s' \<and> m_maxNumElements s' = m_maxNumElements t"
    using Cons.prems(5,6) a w by (intro Cons.IH[OF t(2)]) simp_all
  then show ?case using a by simp
qed

lemma scale_reachable:
  assumes "run (Cache_ctor i n m) ops = Some s" "n < 2 ^ 31" "length ops < 2 ^ 31"
  shows "residents s \<le> length ops" "ghosts s \<le> residents s"
    "0 \<le> m_p s" "m_p s \<le> int (max n (length ops))" "m_maxNumElements s = n"
    "effective_capacity s \<le> max n (length ops)"
proof -
  have 0: "scale_inv 0 (Cache_ctor i n m)" "m_maxNumElements (Cache_ctor i n m) = n"
    by (simp_all add: scale_inv_def residents_def ghosts_def Cache_ctor_def)
  have "scale_inv (0 + length ops) s \<and> m_maxNumElements s = m_maxNumElements (Cache_ctor i n m)"
    using assms(2,3) 0 by (intro scale_run[OF assms(1) wf_Cache_ctor]) simp_all
  then have inv: "scale_inv (length ops) s" and n: "m_maxNumElements s = n" using 0(2) by simp_all
  from inv n show "residents s \<le> length ops" "ghosts s \<le> residents s"
    "0 \<le> m_p s" "m_p s \<le> int (max n (length ops))" "m_maxNumElements s = n"
    by (simp_all add: scale_inv_def)
  then show "effective_capacity s \<le> max n (length ops)"
    using effective_capacity_le[of s] n by simp
qed

subsection \<open>The iterations of the T1 sweep\<close>

lemma T1_step_referenced:
  assumes "wf_lists s" "0 \<le> m_p s" "m_p s < 2 ^ 31" "length (m_B1List s) < 2 ^ 31"
    and "m_T1Queue s = a # rest" "referenceBit (heap s a)"
  shows "T1_step c s =
             (if int (length (m_T1Queue s)) \<ge> min (m_p s + 1) (int (length (m_B1List s)))
                 \<and> \<not> longBit (heap s a)
              then s\<lparr>m_T1Queue := rest @ [a],
                     heap := (heap s)(a := (heap s a)\<lparr>referenceBit := False, longBit := True\<rparr>),
                     m_numShort := m_numShort s - 1, m_numLong := m_numLong s + 1\<rparr>
              else s\<lparr>m_T1Queue := rest @ [a],
                     heap := (heap s)(a := (heap s a)\<lparr>referenceBit := False\<rparr>)\<rparr>)"
proof -
  have sz: "m_B1ListSize s = int (length (m_B1List s))" by (rule wf_listsD(1)[OF assms(1)])
  have "u32 (u32 (m_p s) + 1) = m_p s + 1"
    using assms(2,3) by (simp add: u32_small)
  moreover have "u32 (m_B1ListSize s) = int (length (m_B1List s))"
    using assms(4) sz by (simp add: u32_small)
  ultimately show ?thesis
    using assms(5,6) by (simp add: T1_step_def Let_def Min_T_min)
qed

lemma T1_step_unreferenced:
  assumes "residents s = c" "c < 2 ^ 31"
    and "m_T1Queue s = a # rest" "\<not> referenceBit (heap s a)"
  shows "T1_step c s =
             s\<lparr>m_T1Queue := rest, m_T2Queue := m_T2Queue s @ [a],
               heap := (heap s)(a := (heap s a)\<lparr>referenceBit := False, firstList := False\<rparr>),
               m_q := max (m_q s - 1) (int c - int (length rest))\<rparr>"
proof -
  have "int c - int (length rest) < 2 ^ 31" "- (2 ^ 31) \<le> int c - int (length rest)"
    using assms(1,2,3) by (simp_all add: residents_def)
  then have "i32 (u64 (int c - int (length rest))) = int c - int (length rest)"
    by (intro i32_u64_small) simp_all
  then show ?thesis
    using assms(3,4) by (simp add: T1_step_def Let_def Max_T_max)
qed

lemma T1_iterations:
  assumes "wf_lists u" "\<forall>i<n. T1_cond ((T1_step c ^^ i) u)"
  shows "wf_lists ((T1_step c ^^ n) u) \<and> residents ((T1_step c ^^ n) u) = residents u
     \<and> m_p ((T1_step c ^^ n) u) = m_p u \<and> m_B1List ((T1_step c ^^ n) u) = m_B1List u
     \<and> sweepT1 c ((T1_step c ^^ n) u) = sweepT1 c u"
  using assms(2)
proof (induction n)
  case 0
  then show ?case using assms(1) by simp
next
  case (Suc n)
  let ?x = "(T1_step c ^^ n) u"
  from Suc.prems have c: "T1_cond ?x" and "\<forall>i<n. T1_cond ((T1_step c ^^ i) u)" by simp_all
  from Suc.IH[OF this(2)] have ih: "wf_lists ?x" "residents ?x = residents u"
    "m_p ?x = m_p u" "m_B1List ?x = m_B1List u" "sweepT1 c ?x = sweepT1 c u" by simp_all
  have "sweepT1 c ?x = sweepT1 c (T1_step c ?x)" using c by (subst sweepT1.simps) simp
  then show ?case using ih c wf_lists_T1_step[OF c ih(1)] by simp
qed

subsection \<open>Unfolding the operations on concrete caches\<close>

lemmas eval_defs = touch_def CacheImpl_def Cache_ctor_def FindOrCreate_def IsInCache_def
  InsertIntoCache_def InternalInsert_def Handle_dtor_def
  Clear_def Handle_ctor_def Handle_copy_def Handle_Release_def Handle_empty_def IncUsage_def
  DecUsage_eq waits_def dec_row_def GetUsage_def IsFull_def effective_capacity_def
  replace_page_def sweepT2.simps sweepT1.simps T2_cond_def T2_step_def T1_cond_def T1_step_def
  adapt_q_def demote_def evict_def unpinned_def history_replace_def history_cond_def install_def
  B1B2map_insert_def B1B2map_erase_def Max_T_def Min_T_def u32_def u64_def i32_def int_div_def
  nullptr_def Let_def extract_Cons_code extract_Nil_code

section \<open>The claims\<close>

text \<open>
  C3. Starting from a freshly constructed cache, after every operation of any sequence
  of \<open>FindOrCreate\<close>, \<open>IsInCache\<close>, \<open>InsertIntoCache\<close> and \<open>Clear\<close> calls (and of handle
  copies, releases and destructions) that has returned, the number of Short entries plus
  the number of Long entries is the length of \<open>T1\<close> plus the length of \<open>T2\<close>. These are
  all the sequences a program can run: a call of \<open>RemoveFromCache\<close> does not compile.
\<close>

theorem counters_sum_to_resident_count:
  "run (Cache_ctor interface maxNumElements maxUsedMemory) ops = Some s \<Longrightarrow>
   m_numShort s + m_numLong s = int (length (m_T1Queue s)) + int (length (m_T2Queue s))"
proof -
  assume "run (Cache_ctor interface maxNumElements maxUsedMemory) ops = Some s"
  moreover have "count_inv (Cache_ctor interface maxNumElements maxUsedMemory)"
    by (simp add: count_inv_def Cache_ctor_def)
  ultimately have "count_inv s" by (rule count_inv_run)
  then show ?thesis by (simp add: count_inv_def)
qed

theorem counters_sum_to_resident_count_witness:
  "\<exists>s. run (Cache_ctor CacheImpl 2 0)
          (touch 1 101 @ touch 2 102 @ touch 3 103 @ touch 1 104
           @ [Op_IsInCache 3, Op_InsertIntoCache 4 105 0]) = Some s
       \<and> m_numShort s + m_numLong s = int (length (m_T1Queue s)) + int (length (m_T2Queue s))"
proof -
  have "\<exists>s. run (Cache_ctor CacheImpl 2 0)
          (touch 1 101 @ touch 2 102 @ touch 3 103 @ touch 1 104
           @ [Op_IsInCache 3, Op_InsertIntoCache 4 105 0]) = Some s"
    by (simp add: eval_defs)
  then obtain s where "run (Cache_ctor CacheImpl 2 0)
          (touch 1 101 @ touch 2 102 @ touch 3 103 @ touch 1 104
           @ [Op_IsInCache 3, Op_InsertIntoCache 4 105 0]) = Some s" ..
  with counters_sum_to_resident_count[OF this] show ?thesis by blast
qed

text \<open>
  C10. In every state a sequence of operations reaches from a fresh cache, every entry
  of the \<open>T2\<close> queue is Long. With it the counters are exact: \<open>m_numLong\<close> is the number
  of Long entries and \<open>m_numShort\<close> the number of Short entries of \<open>T1\<close> and \<open>T2\<close>, so
  the unconditional decrement of \<open>m_numLong\<close> for an entry leaving \<open>T2\<close> is the right one.
\<close>

theorem T2_entries_are_Long:
  assumes "run (Cache_ctor interface maxNumElements maxUsedMemory) ops = Some s"
  shows "(\<forall>a \<in> set (m_T2Queue s). longBit (heap s a))
       \<and> m_numLong s = int (length (filter (\<lambda>a. longBit (heap s a)) (m_T1Queue s @ m_T2Queue s)))
       \<and> m_numShort s = int (length (filter (\<lambda>a. \<not> longBit (heap s a)) (m_T1Queue s @ m_T2Queue s)))"
proof -
  have wf: "wf_lists s" by (rule wf_reachable(1)[OF assms])
  have long: "list_all (\<lambda>a. longBit (heap s a)) (m_T2Queue s)"
    using wf_listsD(8)[OF wf] by (simp add: is_long_def[abs_def])
  have "m_numLong s = int (length (filter (\<lambda>a. longBit (heap s a)) (m_T1Queue s))) + int (length (m_T2Queue s))"
    using wf_listsD(14)[OF wf] by (simp add: is_long_def[abs_def])
  moreover have "m_numShort s = int (length (filter (\<lambda>a. \<not> longBit (heap s a)) (m_T1Queue s)))"
    using wf_listsD(13)[OF wf] by (simp add: is_short_def[abs_def])
  ultimately show ?thesis
    using long filter_all[OF long] filter_none[OF long] by (simp add: list_all_iff)
qed

theorem T2_entries_are_Long_witness:
  "\<exists>s. run (Cache_ctor CacheImpl 2 0)
          (touch 1 101 @ touch 2 102 @ touch 3 103 @ touch 1 104 @ touch 4 105 @ touch 5 106) = Some s
       \<and> m_T2Queue s = [1]
       \<and> (\<forall>a \<in> set (m_T2Queue s). longBit (heap s a))
       \<and> m_numLong s = int (length (filter (\<lambda>a. longBit (heap s a)) (m_T1Queue s @ m_T2Queue s)))
       \<and> m_numShort s = int (length (filter (\<lambda>a. \<not> longBit (heap s a)) (m_T1Queue s @ m_T2Queue s)))"
proof -
  have "\<exists>s. run (Cache_ctor CacheImpl 2 0)
          (touch 1 101 @ touch 2 102 @ touch 3 103 @ touch 1 104 @ touch 4 105 @ touch 5 106) = Some s
        \<and> m_T2Queue s = [1]"
    by (simp add: eval_defs)
  then obtain s where s: "run (Cache_ctor CacheImpl 2 0)
          (touch 1 101 @ touch 2 102 @ touch 3 103 @ touch 1 104 @ touch 4 105 @ touch 5 106) = Some s"
     "m_T2Queue s = [1]" by blast
  from T2_entries_are_Long[OF s(1)] s show ?thesis by blast
qed

text \<open>
  C9. For a non-empty handle \<open>h\<close> whose row of the usage map holds a count \<open>n\<close> (not
  zero: the handle itself is counted): a copy is a handle on the same key and value and
  raises the count to \<open>n + 1\<close>; \<open>Release\<close> and the destructor lower it to \<open>n - 1\<close> and
  empty the handle, and their assertion holds exactly when the handle was not the last
  holder (\<open>n \<noteq> 1\<close>); an assignment to \<open>h\<close> first releases it in the same way, and a copy
  assignment then counts the handle assigned from, when that is another handle and not
  empty; and copying \<open>h\<close>, then destroying the copy, leaves the usage map as it was, with
  the assertion holding. \<open>h\<close> is the handle at \<open>this\<close> in the store \<open>H\<close>. An assignment of
  \<open>h\<close> to itself leaves it empty, with the count \<open>n - 1\<close>.
\<close>

theorem handle_usage_counts:
  assumes "H this = h" "m_cache h" "m_value h \<noteq> nullptr"
    and "m_usage s (UsageId (m_interface s) (m_key h) (m_value h)) = Some n" "n \<noteq> 0"
  shows "fst (Handle_copy s h) = h
     \<and> GetUsage (snd (Handle_copy s h)) (m_key h) (m_value h) = n + 1
     \<and> (\<exists>s1. Handle_Release s h = Some (n \<noteq> 1, h\<lparr>m_value := nullptr\<rparr>, s1)
            \<and> Handle_dtor s h = Some (n \<noteq> 1, s1)
            \<and> GetUsage s1 (m_key h) (m_value h) = n - 1)
     \<and> (\<exists>s2. Handle_assign s H this op
                = Some (n \<noteq> 1,
                        H(this := (if op = this then h\<lparr>m_value := nullptr\<rparr> else H op)), s2)
            \<and> GetUsage s2 (m_key h) (m_value h) =
                (if op \<noteq> this \<and> m_cache (H op) \<and> m_value (H op) \<noteq> nullptr
                    \<and> UsageId (m_interface s) (m_key (H op)) (m_value (H op))
                        = UsageId (m_interface s) (m_key h) (m_value h)
                 then n else n - 1))
     \<and> (\<exists>s3. Handle_move_assign s H this op
                = Some (n \<noteq> 1,
                        (if op = this
                         then H(this := h\<lparr>m_cache := False, m_value := nullptr\<rparr>)
                         else H(this := H op,
                                op := (H op)\<lparr>m_cache := False, m_value := nullptr\<rparr>)), s3)
            \<and> GetUsage s3 (m_key h) (m_value h) = n - 1)
     \<and> (\<exists>s4. Handle_dtor (snd (Handle_copy s h)) (fst (Handle_copy s h)) = Some (True, s4)
            \<and> m_usage s4 = m_usage s)"
proof (intro conjI)
  show "fst (Handle_copy s h) = h" by (simp add: Handle_copy_def)
  show "GetUsage (snd (Handle_copy s h)) (m_key h) (m_value h) = n + 1"
    using assms by (simp add: Handle_copy_def IncUsage_def GetUsage_def Let_def)
  show "\<exists>s1. Handle_Release s h = Some (n \<noteq> 1, h\<lparr>m_value := nullptr\<rparr>, s1)
            \<and> Handle_dtor s h = Some (n \<noteq> 1, s1)
            \<and> GetUsage s1 (m_key h) (m_value h) = n - 1"
    using assms
    by (simp add: Handle_dtor_def Handle_Release_def DecUsage_eq waits_def dec_row_def GetUsage_def Let_def)
  show "\<exists>s2. Handle_assign s H this op
                = Some (n \<noteq> 1,
                        H(this := (if op = this then h\<lparr>m_value := nullptr\<rparr> else H op)), s2)
            \<and> GetUsage s2 (m_key h) (m_value h) =
                (if op \<noteq> this \<and> m_cache (H op) \<and> m_value (H op) \<noteq> nullptr
                    \<and> UsageId (m_interface s) (m_key (H op)) (m_value (H op))
                        = UsageId (m_interface s) (m_key h) (m_value h)
                 then n else n - 1)"
  proof (cases "op = this")
    case True
    then show ?thesis
      using assms
      by (simp add: Handle_assign_def Handle_Release_def DecUsage_eq waits_def dec_row_def
            GetUsage_def IncUsage_def Let_def)
  next
    case False
    then show ?thesis
      using assms
      by (simp add: Handle_assign_def Handle_Release_def DecUsage_eq waits_def dec_row_def
            GetUsage_def IncUsage_def Let_def)
  qed
  show "\<exists>s3. Handle_move_assign s H this op
                = Some (n \<noteq> 1,
                        (if op = this
                         then H(this := h\<lparr>m_cache := False, m_value := nullptr\<rparr>)
                         else H(this := H op,
                                op := (H op)\<lparr>m_cache := False, m_value := nullptr\<rparr>)), s3)
            \<and> GetUsage s3 (m_key h) (m_value h) = n - 1"
  proof (cases "op = this")
    case True
    then show ?thesis
      using assms
      by (simp add: Handle_move_assign_def Handle_Release_def DecUsage_eq waits_def dec_row_def
            GetUsage_def Let_def)
  next
    case False
    then show ?thesis
      using assms
      by (simp add: Handle_move_assign_def Handle_Release_def DecUsage_eq waits_def dec_row_def
            GetUsage_def Let_def)
  qed
  show "\<exists>s4. Handle_dtor (snd (Handle_copy s h)) (fst (Handle_copy s h)) = Some (True, s4)
            \<and> m_usage s4 = m_usage s"
    using assms
    by (simp add: Handle_dtor_def Handle_copy_def Handle_Release_def DecUsage_eq waits_def dec_row_def
          GetUsage_def IncUsage_def Let_def fun_upd_idem)
qed

theorem handle_usage_counts_witness:
  "\<exists>s. run (Cache_ctor CacheImpl 2 0) [Op_FindOrCreate 1 101] = Some s
     \<and> GetUsage s 1 101 = 2
     \<and> GetUsage (snd (Handle_copy s \<lparr>m_cache = True, m_key = 1, m_value = 101\<rparr>)) 1 101 = 3
     \<and> (\<exists>s1. Handle_Release s \<lparr>m_cache = True, m_key = 1, m_value = 101\<rparr>
                 = Some (True, \<lparr>m_cache = True, m_key = 1, m_value = nullptr\<rparr>, s1)
            \<and> GetUsage s1 1 101 = 1)
     \<and> (\<exists>s2. Handle_assign s (\<lambda>a. \<lparr>m_cache = True, m_key = 1, m_value = 101\<rparr>) 5 5
                 = Some (True, (\<lambda>a. \<lparr>m_cache = True, m_key = 1, m_value = 101\<rparr>)
                                (5 := \<lparr>m_cache = True, m_key = 1, m_value = nullptr\<rparr>), s2)
            \<and> GetUsage s2 1 101 = 1)
     \<and> (\<exists>s4. Handle_dtor (snd (Handle_copy s \<lparr>m_cache = True, m_key = 1, m_value = 101\<rparr>))
                  (fst (Handle_copy s \<lparr>m_cache = True, m_key = 1, m_value = 101\<rparr>)) = Some (True, s4)
            \<and> m_usage s4 = m_usage s)"
proof -
  have "\<exists>s. run (Cache_ctor CacheImpl 2 0) [Op_FindOrCreate 1 101] = Some s
      \<and> m_usage s (UsageId (m_interface s) 1 101) = Some 2"
    by (simp add: eval_defs)
  then obtain s where s: "run (Cache_ctor CacheImpl 2 0) [Op_FindOrCreate 1 101] = Some s"
    "m_usage s (UsageId (m_interface s) 1 101) = Some 2" by blast
  have "GetUsage s 1 101 = 2" using s(2) by (simp add: GetUsage_def)
  with s(1) handle_usage_counts[of "\<lambda>a. \<lparr>m_cache = True, m_key = 1, m_value = 101\<rparr>" 5
        "\<lparr>m_cache = True, m_key = 1, m_value = 101\<rparr>" s 2 5] s(2)
  show ?thesis by (auto simp: nullptr_def)
qed

text \<open>
  C7. \<open>IsInCache\<close> changes nothing but the usage map, which counts the handle it
  returns: no reference bit is set (the elements are as before), no list entry moves, and
  \<open>p\<close>, \<open>q\<close>, \<open>nS\<close>, \<open>nL\<close> keep their values. A second \<open>IsInCache\<close> of the same key
  returns the same handle and again changes the usage map only. Once the returned
  handle is destroyed, the cache is exactly as before the call, whenever the usage row
  of the value holds a count (as it does while the cache holds the value).
\<close>

theorem IsInCache_changes_usage_only:
  "(snd (IsInCache s key))\<lparr>m_usage := m_usage s\<rparr> = s
   \<and> heap (snd (IsInCache s key)) = heap s
   \<and> m_T1Queue (snd (IsInCache s key)) = m_T1Queue s \<and> m_T2Queue (snd (IsInCache s key)) = m_T2Queue s
   \<and> m_B1List (snd (IsInCache s key)) = m_B1List s \<and> m_B2List (snd (IsInCache s key)) = m_B2List s
   \<and> m_p (snd (IsInCache s key)) = m_p s \<and> m_q (snd (IsInCache s key)) = m_q s
   \<and> m_numShort (snd (IsInCache s key)) = m_numShort s \<and> m_numLong (snd (IsInCache s key)) = m_numLong s
   \<and> fst (IsInCache (snd (IsInCache s key)) key) = fst (IsInCache s key)
   \<and> (snd (IsInCache (snd (IsInCache s key)) key))\<lparr>m_usage := m_usage s\<rparr> = s
   \<and> (m_T1T2map s key = None \<longrightarrow> IsInCache s key = (Handle_empty key, s))
   \<and> (\<forall>a n. m_T1T2map s key = Some a
         \<longrightarrow> m_usage s (UsageId (m_interface s) key (page (heap s a))) = Some n \<longrightarrow> n \<noteq> 0
         \<longrightarrow> Handle_dtor (snd (IsInCache s key)) (fst (IsInCache s key)) = Some (True, s))"
proof -
  have shape: "(snd (IsInCache t key))\<lparr>m_usage := u\<rparr> = t\<lparr>m_usage := u\<rparr>" for t :: "'a Cache" and u
    by (simp add: IsInCache_def Handle_ctor_def IncUsage_def Let_def split: option.splits)
  have fields: "heap (snd (IsInCache t key)) = heap t" "m_T1T2map (snd (IsInCache t key)) = m_T1T2map t"
    "m_T1Queue (snd (IsInCache t key)) = m_T1Queue t" "m_T2Queue (snd (IsInCache t key)) = m_T2Queue t"
    "m_B1List (snd (IsInCache t key)) = m_B1List t" "m_B2List (snd (IsInCache t key)) = m_B2List t"
    "m_p (snd (IsInCache t key)) = m_p t" "m_q (snd (IsInCache t key)) = m_q t"
    "m_numShort (snd (IsInCache t key)) = m_numShort t" "m_numLong (snd (IsInCache t key)) = m_numLong t"
    for t :: "'a Cache"
    by (simp_all add: IsInCache_def Handle_ctor_def IncUsage_def Let_def split: option.splits)
  have h: "fst (IsInCache t key) = (case m_T1T2map t key of
              Some a \<Rightarrow> \<lparr>m_cache = True, m_key = key, m_value = page (heap t a)\<rparr>
            | None \<Rightarrow> Handle_empty key)" for t :: "'a Cache"
    by (simp add: IsInCache_def Handle_ctor_def split: option.splits)
  have twice: "(snd (IsInCache (snd (IsInCache s key)) key))\<lparr>m_usage := m_usage s\<rparr> = s"
    using shape[where t = "snd (IsInCache s key)" and u = "m_usage s"]
      shape[where t = s and u = "m_usage s"] by simp
  have dtor: "Handle_dtor (snd (IsInCache s key)) (fst (IsInCache s key)) = Some (True, s)"
    if "m_T1T2map s key = Some a" "m_usage s (UsageId (m_interface s) key (page (heap s a))) = Some n"
       "n \<noteq> 0" for a n
    using that
    by (cases "page (heap s a) = nullptr")
       (simp_all add: IsInCache_def Handle_ctor_def Handle_dtor_def Handle_Release_def DecUsage_eq
          waits_def dec_row_def GetUsage_def IncUsage_def Let_def fun_upd_idem)
  have same: "fst (IsInCache (snd (IsInCache s key)) key) = fst (IsInCache s key)"
    by (simp only: h fields)
  have absent: "IsInCache s key = (Handle_empty key, s)" if "m_T1T2map s key = None"
    using that by (simp add: IsInCache_def)
  have once: "(snd (IsInCache s key))\<lparr>m_usage := m_usage s\<rparr> = s"
    using shape[where t = s and u = "m_usage s"] by simp
  from once fields[of s] same twice absent dtor show ?thesis
    by (intro conjI allI impI) assumption+
qed

theorem IsInCache_changes_usage_only_witness:
  "\<exists>s. run (Cache_ctor CacheImpl 2 0) (touch 1 101) = Some s
     \<and> m_value (fst (IsInCache s 1)) = 101
     \<and> (snd (IsInCache s 1))\<lparr>m_usage := m_usage s\<rparr> = s
     \<and> fst (IsInCache (snd (IsInCache s 1)) 1) = fst (IsInCache s 1)
     \<and> Handle_dtor (snd (IsInCache s 1)) (fst (IsInCache s 1)) = Some (True, s)
     \<and> IsInCache s 7 = (Handle_empty 7, s)"
proof -
  have "\<exists>s. run (Cache_ctor CacheImpl 2 0) (touch 1 101) = Some s
      \<and> m_T1T2map s 1 = Some 1 \<and> m_T1T2map s 7 = None
      \<and> m_usage s (UsageId (m_interface s) 1 (page (heap s 1))) = Some 1
      \<and> m_value (fst (IsInCache s 1)) = 101"
    by (simp add: eval_defs)
  then obtain s where s: "run (Cache_ctor CacheImpl 2 0) (touch 1 101) = Some s"
    "m_T1T2map s 1 = Some 1" "m_T1T2map s 7 = None"
    "m_usage s (UsageId (m_interface s) 1 (page (heap s 1))) = Some 1"
    "m_value (fst (IsInCache s 1)) = 101" by blast
  from IsInCache_changes_usage_only[of s 1] s(2,4)
  have "(snd (IsInCache s 1))\<lparr>m_usage := m_usage s\<rparr> = s"
    "fst (IsInCache (snd (IsInCache s 1)) 1) = fst (IsInCache s 1)"
    "Handle_dtor (snd (IsInCache s 1)) (fst (IsInCache s 1)) = Some (True, s)"
    by simp_all
  moreover from IsInCache_changes_usage_only[of s 7] s(3)
  have "IsInCache s 7 = (Handle_empty 7, s)" by blast
  ultimately show ?thesis using s(1,5) by blast
qed

text \<open>
  C1, as amended. For an insertion of a key that is not resident into a full cache, the
  effective capacity is \<open>c = |T1| + |T2|\<close>, read once from the cache as it is when the
  insertion starts, and this one value is what the two sweeps, the history replacement
  and the installation (with its adaptation of \<open>p\<close> and \<open>q\<close>) are given. It is
  \<open>max maxNumElements (|T1| + |T2|)\<close> exactly when \<open>maxNumElements \<le> |T1| + |T2|\<close>; when
  \<open>|T1| + |T2| < maxNumElements\<close>, the cache is full by its byte budget (\<open>maxUsedMemory\<close> is
  not zero and \<open>usedMemory \<ge> maxUsedMemory\<close>) and \<open>c\<close> is below that maximum.
\<close>

theorem capacity_of_full_insertion:
  assumes "IsFull s" "m_T1T2map s key = None"
  shows "effective_capacity s = length (m_T1Queue s) + length (m_T2Queue s)
     \<and> InternalInsert s key v acquired =
         (let c = length (m_T1Queue s) + length (m_T2Queue s);
              v' = (if v = nullptr then acquired else v);
              s1 = IncUsage (s\<lparr>m_T1T2map := (m_T1T2map s)(key \<mapsto> 0)\<rparr>) key v'
          in case demote (sweepT1 c (sweepT2 c s1)) of
               None \<Rightarrow> None
             | Some t \<Rightarrow>
                (case history_replace c key t of
                   None \<Rightarrow> None
                 | Some t' \<Rightarrow>
                     Some (Handle_ctor
                            ((install c key v' t')
                               \<lparr>m_usedMemory := m_usedMemory (install c key v' t')
                                    + CacheGetValueSize (m_interface (install c key v' t')) v'\<rparr>)
                            True key v')))
     \<and> ((effective_capacity s
            = max (m_maxNumElements s) (length (m_T1Queue s) + length (m_T2Queue s)))
          \<longleftrightarrow> m_maxNumElements s \<le> length (m_T1Queue s) + length (m_T2Queue s))
     \<and> (length (m_T1Queue s) + length (m_T2Queue s) < m_maxNumElements s \<longrightarrow>
            m_maxUsedMemory s \<noteq> 0 \<and> m_maxUsedMemory s \<le> m_usedMemory s
          \<and> effective_capacity s
              < max (m_maxNumElements s) (length (m_T1Queue s) + length (m_T2Queue s)))"
proof -
  have c: "effective_capacity s = length (m_T1Queue s) + length (m_T2Queue s)"
    using assms(1) by (simp add: effective_capacity_def)
  have byte: "length (m_T1Queue s) + length (m_T2Queue s) < m_maxNumElements s \<longrightarrow>
            m_maxUsedMemory s \<noteq> 0 \<and> m_maxUsedMemory s \<le> m_usedMemory s"
    using assms(1) by (auto simp: IsFull_def)
  have ins: "InternalInsert s key v acquired =
         (let c = length (m_T1Queue s) + length (m_T2Queue s);
              v' = (if v = nullptr then acquired else v);
              s1 = IncUsage (s\<lparr>m_T1T2map := (m_T1T2map s)(key \<mapsto> 0)\<rparr>) key v'
          in case demote (sweepT1 c (sweepT2 c s1)) of
               None \<Rightarrow> None
             | Some t \<Rightarrow>
                (case history_replace c key t of
                   None \<Rightarrow> None
                 | Some t' \<Rightarrow>
                     Some (Handle_ctor
                            ((install c key v' t')
                               \<lparr>m_usedMemory := m_usedMemory (install c key v' t')
                                    + CacheGetValueSize (m_interface (install c key v' t')) v'\<rparr>)
                            True key v')))"
    using assms
    by (simp add: c InternalInsert_miss before_install_def insert_finish_def insert_start_def
          replace_page_def Let_def split: option.splits)
  show ?thesis
    unfolding c using c ins byte by (simp add: max_def)
qed

theorem capacity_of_full_insertion_witness:
  "\<exists>s t u. run (Cache_ctor CacheImpl 2 0) (touch 1 101 @ touch 2 102) = Some s
     \<and> IsFull s \<and> m_T1T2map s 3 = None \<and> effective_capacity s = 2
     \<and> effective_capacity s = max (m_maxNumElements s) (length (m_T1Queue s) + length (m_T2Queue s))
     \<and> run (Cache_ctor CacheImpl 10 4) (touch 1 101) = Some t
     \<and> IsFull t \<and> m_T1T2map t 2 = None \<and> effective_capacity t = 1 \<and> m_maxNumElements t = 10
     \<and> m_maxUsedMemory t \<noteq> 0 \<and> m_maxUsedMemory t \<le> m_usedMemory t
     \<and> run (Cache_ctor CacheImpl 0 8) (touch 1 101 @ touch 2 102) = Some u
     \<and> IsFull u \<and> m_T1T2map u 3 = None \<and> m_maxNumElements u = 0 \<and> effective_capacity u = 2
     \<and> effective_capacity u = max (m_maxNumElements u) (length (m_T1Queue u) + length (m_T2Queue u))"
proof -
  have "\<exists>s. run (Cache_ctor CacheImpl 2 0) (touch 1 101 @ touch 2 102) = Some s
     \<and> IsFull s \<and> m_T1T2map s 3 = None \<and> length (m_T1Queue s) + length (m_T2Queue s) = 2
     \<and> m_maxNumElements s = 2"
    by (simp add: eval_defs)
  then obtain s where s: "run (Cache_ctor CacheImpl 2 0) (touch 1 101 @ touch 2 102) = Some s"
    "IsFull s" "m_T1T2map s 3 = None" "length (m_T1Queue s) + length (m_T2Queue s) = 2"
    "m_maxNumElements s = 2"
    by blast
  have "\<exists>t. run (Cache_ctor CacheImpl 10 4) (touch 1 101) = Some t
     \<and> IsFull t \<and> m_T1T2map t 2 = None \<and> length (m_T1Queue t) + length (m_T2Queue t) = 1
     \<and> m_maxNumElements t = 10"
    by (simp add: eval_defs)
  then obtain t where t: "run (Cache_ctor CacheImpl 10 4) (touch 1 101) = Some t"
    "IsFull t" "m_T1T2map t 2 = None" "length (m_T1Queue t) + length (m_T2Queue t) = 1"
    "m_maxNumElements t = 10"
    by blast
  have "\<exists>u. run (Cache_ctor CacheImpl 0 8) (touch 1 101 @ touch 2 102) = Some u
     \<and> IsFull u \<and> m_T1T2map u 3 = None \<and> length (m_T1Queue u) + length (m_T2Queue u) = 2
     \<and> m_maxNumElements u = 0"
    by (simp add: eval_defs)
  then obtain u where u: "run (Cache_ctor CacheImpl 0 8) (touch 1 101 @ touch 2 102) = Some u"
    "IsFull u" "m_T1T2map u 3 = None" "length (m_T1Queue u) + length (m_T2Queue u) = 2"
    "m_maxNumElements u = 0"
    by blast
  note a = capacity_of_full_insertion[OF s(2,3), of nullptr 103]
  note b = capacity_of_full_insertion[OF t(2,3), of nullptr 102]
  note c = capacity_of_full_insertion[OF u(2,3), of nullptr 103]
  have "effective_capacity s = 2"
    "effective_capacity s = max (m_maxNumElements s) (length (m_T1Queue s) + length (m_T2Queue s))"
    using a s(4,5) by simp_all
  moreover have "effective_capacity t = 1" "m_maxUsedMemory t \<noteq> 0 \<and> m_maxUsedMemory t \<le> m_usedMemory t"
    using b t(4,5) by simp_all
  moreover have "effective_capacity u = 2"
    "effective_capacity u = max (m_maxNumElements u) (length (m_T1Queue u) + length (m_T2Queue u))"
    using c u(4,5) by simp_all
  ultimately show ?thesis using s t u by blast
qed

theorem capacity_counterexample:
  "IsFull (the (run (Cache_ctor CacheImpl 10 4) (touch 1 101)))
   \<and> m_T1T2map (the (run (Cache_ctor CacheImpl 10 4) (touch 1 101))) 2 = None
   \<and> effective_capacity (the (run (Cache_ctor CacheImpl 10 4) (touch 1 101))) = 1
   \<and> max (m_maxNumElements (the (run (Cache_ctor CacheImpl 10 4) (touch 1 101))))
          (length (m_T1Queue (the (run (Cache_ctor CacheImpl 10 4) (touch 1 101))))
           + length (m_T2Queue (the (run (Cache_ctor CacheImpl 10 4) (touch 1 101))))) = 10"
  by (simp add: eval_defs)

text \<open>
  C2, as amended. When the loader returns no value (a null pointer) for a key that is
  not resident, \<open>FindOrCreate\<close> and \<open>InsertIntoCache\<close> report no error: in a reachable
  cache (of fewer than \<open>2^64 - 1\<close> resident entries) the call returns, its handle is empty,
  and the insertion has been carried out with the null pointer as the page: the key is in
  the resident index, its element is the last of \<open>T1\<close>, with the key, a null page, the
  reference bit clear. The cache is not the one before the call.
\<close>

theorem loader_failure_installs_null_page:
  assumes "run (Cache_ctor interface maxNumElements maxUsedMemory) ops = Some s"
    and "m_T1T2map s key = None"
    and "length (m_T1Queue s) + length (m_T2Queue s) + 1 < 2 ^ 64"
  shows "\<exists>h s' a. FindOrCreate s key nullptr = Some (h, s')
           \<and> InsertIntoCache s key nullptr nullptr = Some (h, s')
           \<and> m_value h = nullptr
           \<and> m_T1T2map s' key = Some a
           \<and> m_T1Queue s' \<noteq> [] \<and> last (m_T1Queue s') = a
           \<and> pageKey (heap s' a) = key \<and> page (heap s' a) = nullptr
           \<and> \<not> referenceBit (heap s' a)
           \<and> s' \<noteq> s"
proof -
  have wf: "wf_lists s" "wf_index None s" by (rule wf_reachable[OF assms(1)])+
  have "int (length (m_T1Queue s) + length (m_T2Queue s)) + 1 < 2 ^ 64"
    using assms(3) by (metis of_nat_1 of_nat_add of_nat_less_numeral_power_cancel_iff)
  then have "u64 (int (length (m_T1Queue s) + length (m_T2Queue s)) + 1) \<noteq> 0"
    by (subst u64_small) simp_all
  from before_install_returns[OF wf assms(2) this, of nullptr]
  obtain t where t: "before_install s key nullptr = Some t" by blast
  have wt: "wf_lists t" by (rule wf_before_install(1)[OF wf assms(2) t])
  let ?c = "effective_capacity s"
  let ?s3 = "install ?c key nullptr t"
  from install_result[OF wt, of ?c key nullptr] obtain a where
    a: "m_T1T2map ?s3 key = Some a" "m_T1Queue ?s3 = m_T1Queue t @ [a]"
       "pageKey (heap ?s3 a) = key" "page (heap ?s3 a) = nullptr" "\<not> referenceBit (heap ?s3 a)"
    by blast
  let ?s4 = "?s3\<lparr>m_usedMemory := m_usedMemory ?s3 + CacheGetValueSize (m_interface ?s3) nullptr\<rparr>"
  have fin: "insert_finish s key nullptr t = (\<lparr>m_cache = True, m_key = key, m_value = nullptr\<rparr>, ?s4)"
    by (simp add: insert_finish_def Handle_ctor_def)
  have ins: "InternalInsert s key nullptr nullptr
               = Some (\<lparr>m_cache = True, m_key = key, m_value = nullptr\<rparr>, ?s4)"
    using t fin by (simp add: InternalInsert_miss[OF assms(2)])
  have "m_T1T2map ?s4 key \<noteq> m_T1T2map s key" using a(1) assms(2) by simp
  then have "?s4 \<noteq> s" by metis
  then show ?thesis
    using ins a assms(2)
    by (intro exI[of _ "\<lparr>m_cache = True, m_key = key, m_value = nullptr\<rparr>"] exI[of _ ?s4] exI[of _ a])
       (simp add: FindOrCreate_def InsertIntoCache_def)
qed

theorem loader_failure_installs_null_page_witness:
  "\<exists>s h s' a. run (Cache_ctor CacheImpl 2 0) (touch 1 101) = Some s
     \<and> FindOrCreate s 2 nullptr = Some (h, s') \<and> m_value h = nullptr
     \<and> m_T1T2map s' 2 = Some a \<and> last (m_T1Queue s') = a \<and> page (heap s' a) = nullptr \<and> s' \<noteq> s"
proof -
  have "\<exists>s. run (Cache_ctor CacheImpl 2 0) (touch 1 101) = Some s
      \<and> m_T1T2map s 2 = None \<and> length (m_T1Queue s) + length (m_T2Queue s) + 1 < 2 ^ 64"
    by (simp add: eval_defs)
  then obtain s where s: "run (Cache_ctor CacheImpl 2 0) (touch 1 101) = Some s"
    "m_T1T2map s 2 = None" "length (m_T1Queue s) + length (m_T2Queue s) + 1 < 2 ^ 64" by blast
  from loader_failure_installs_null_page[OF s] s(1) show ?thesis by blast
qed

theorem loader_failure_counterexample:
  "FindOrCreate (Cache_ctor CacheImpl 2 0) 1 nullptr \<noteq> None
   \<and> m_value (fst (the (FindOrCreate (Cache_ctor CacheImpl 2 0) 1 nullptr))) = nullptr
   \<and> m_T1T2map (Cache_ctor CacheImpl 2 0) 1 = None
   \<and> m_T1T2map (snd (the (FindOrCreate (Cache_ctor CacheImpl 2 0) 1 nullptr))) 1 = Some 1
   \<and> m_T1Queue (Cache_ctor CacheImpl 2 0) = []
   \<and> m_T1Queue (snd (the (FindOrCreate (Cache_ctor CacheImpl 2 0) 1 nullptr))) = [1]
   \<and> m_numShort (Cache_ctor CacheImpl 2 0) = 0
   \<and> m_numShort (snd (the (FindOrCreate (Cache_ctor CacheImpl 2 0) 1 nullptr))) = 1
   \<and> m_usage (Cache_ctor CacheImpl 2 0) (UsageId CacheImpl 1 nullptr) = None
   \<and> m_usage (snd (the (FindOrCreate (Cache_ctor CacheImpl 2 0) 1 nullptr))) (UsageId CacheImpl 1 nullptr) = Some 1
   \<and> InsertIntoCache (Cache_ctor CacheImpl 2 0) 1 nullptr nullptr
        = FindOrCreate (Cache_ctor CacheImpl 2 0) 1 nullptr"
  by (simp add: eval_defs)

text \<open>
  C5. Take an insertion, into a full reachable cache, of a key that is not resident (the
  configured element limit and the number of operations so far below \<open>2^31\<close>), with \<open>c\<close> its
  captured capacity and \<open>u\<close> the cache after its \<open>T2\<close> sweep. The insertion goes on with the
  \<open>T1\<close> sweep of \<open>u\<close>, then the demotion, the history replacement and the installation. Let
  \<open>x\<close> be the cache after \<open>n\<close> iterations of that sweep. The sweep runs its body on \<open>x\<close>
  exactly when \<open>T1\<close> is not empty and its front entry is Long or has its reference bit set.
  When the reference bit of the front entry is set, the iteration moves the entry to the
  back of \<open>T1\<close> with the bit cleared, and makes it Long (\<open>nS - 1\<close>, \<open>nL + 1\<close>) when it is
  Short and \<open>|T1| \<ge> min (p + 1) |B1|\<close>; when the bit is clear (the entry is then Long), the
  iteration moves the entry to the back of \<open>T2\<close> and sets \<open>q\<close> to \<open>max (q - 1) (c - |T1|)\<close>,
  with \<open>|T1|\<close> the length after the move.
\<close>

theorem T1_head_sweep:
  assumes "run (Cache_ctor interface maxNumElements maxUsedMemory) ops = Some s"
    and "maxNumElements < 2 ^ 31" "length ops < 2 ^ 31"
    and "m_T1T2map s key = None" "IsFull s"
    and "c = effective_capacity s"
    and "u = sweepT2 c (insert_start s key (if v = nullptr then acquired else v))"
    and "\<forall>i<n. T1_cond ((T1_step c ^^ i) u)"
    and "x = (T1_step c ^^ n) u"
  shows "InternalInsert s key v acquired =
           (case demote (sweepT1 c u) of
              None \<Rightarrow> None
            | Some d \<Rightarrow>
               (case history_replace c key d of
                  None \<Rightarrow> None
                | Some t \<Rightarrow>
                    Some (insert_finish s key (if v = nullptr then acquired else v) t)))
     \<and> sweepT1 c u = sweepT1 c x
     \<and> sweepT1 c x =
           (if m_T1Queue x \<noteq> []
               \<and> (longBit (heap x (hd (m_T1Queue x))) \<or> referenceBit (heap x (hd (m_T1Queue x))))
            then sweepT1 c (T1_step c x) else x)
     \<and> (\<forall>a rest. m_T1Queue x = a # rest \<longrightarrow> referenceBit (heap x a) \<longrightarrow>
           T1_step c x =
             (if int (length (m_T1Queue x)) \<ge> min (m_p x + 1) (int (length (m_B1List x)))
                 \<and> \<not> longBit (heap x a)
              then x\<lparr>m_T1Queue := rest @ [a],
                     heap := (heap x)(a := (heap x a)\<lparr>referenceBit := False, longBit := True\<rparr>),
                     m_numShort := m_numShort x - 1, m_numLong := m_numLong x + 1\<rparr>
              else x\<lparr>m_T1Queue := rest @ [a],
                     heap := (heap x)(a := (heap x a)\<lparr>referenceBit := False\<rparr>)\<rparr>))
     \<and> (\<forall>a rest. m_T1Queue x = a # rest \<longrightarrow> \<not> referenceBit (heap x a) \<longrightarrow>
           T1_step c x =
             x\<lparr>m_T1Queue := rest, m_T2Queue := m_T2Queue x @ [a],
               heap := (heap x)(a := (heap x a)\<lparr>referenceBit := False, firstList := False\<rparr>),
               m_q := max (m_q x - 1) (int c - int (length rest))\<rparr>)"
proof -
  define v' where "v' = (if v = nullptr then acquired else v)"
  have u: "u = sweepT2 c (insert_start s key v')" using assms(7) by (simp add: v'_def)
  have wf: "wf_lists s" "wf_index None s" by (rule wf_reachable[OF assms(1)])+
  note sc = scale_reachable[OF assms(1-3)]
  have c: "c = residents s" using assms(5,6) by (simp add: effective_capacity_def residents_def)
  have c31: "c < 2 ^ 31" using c sc(1) assms(3) by simp
  note w = wf_pending[OF wf assms(4), of v', folded insert_start_def]
  have wu: "wf_lists u" unfolding u by (rule wf_lists_sweepT2[OF w(1)])
  have fu: "residents u = c" "m_p u = m_p s" "m_B1List u = m_B1List s"
    unfolding u by (simp_all add: c)
  from T1_iterations[OF wu assms(8), folded assms(9)]
  have x: "wf_lists x" "residents x = c" "m_p x = m_p s" "m_B1List x = m_B1List s"
    "sweepT1 c x = sweepT1 c u" by (simp_all add: fu)
  have p: "0 \<le> m_p x" "m_p x < 2 ^ 31"
    using sc(3,4) assms(2,3) x(3) by simp_all
  have b: "length (m_B1List x) < 2 ^ 31"
    using sc(1,2) assms(3) x(4) by (simp add: ghosts_def)
  have tie: "InternalInsert s key v acquired =
           (case demote (sweepT1 c u) of
              None \<Rightarrow> None
            | Some d \<Rightarrow>
               (case history_replace c key d of
                  None \<Rightarrow> None
                | Some t \<Rightarrow> Some (insert_finish s key v' t)))"
  proof -
    have mi: "InternalInsert s key v acquired =
       (case before_install s key v' of None \<Rightarrow> None
        | Some t \<Rightarrow> Some (insert_finish s key v' t))"
      unfolding v'_def by (rule InternalInsert_miss[OF assms(4)])
    have bi: "before_install s key v' =
       (case demote (sweepT1 c u) of None \<Rightarrow> None | Some d \<Rightarrow> history_replace c key d)"
      unfolding u assms(6) using assms(5) by (simp add: before_install_def replace_page_def)
    show ?thesis unfolding mi bi by (simp split: option.splits)
  qed
  have loop: "sweepT1 c x =
           (if m_T1Queue x \<noteq> []
               \<and> (longBit (heap x (hd (m_T1Queue x))) \<or> referenceBit (heap x (hd (m_T1Queue x))))
            then sweepT1 c (T1_step c x) else x)"
    by (subst sweepT1.simps) (simp add: T1_cond_def)
  have ref: "T1_step c x =
             (if int (length (m_T1Queue x)) \<ge> min (m_p x + 1) (int (length (m_B1List x)))
                 \<and> \<not> longBit (heap x a)
              then x\<lparr>m_T1Queue := rest @ [a],
                     heap := (heap x)(a := (heap x a)\<lparr>referenceBit := False, longBit := True\<rparr>),
                     m_numShort := m_numShort x - 1, m_numLong := m_numLong x + 1\<rparr>
              else x\<lparr>m_T1Queue := rest @ [a],
                     heap := (heap x)(a := (heap x a)\<lparr>referenceBit := False\<rparr>)\<rparr>)"
    if "m_T1Queue x = a # rest" "referenceBit (heap x a)" for a rest
    by (rule T1_step_referenced[OF x(1) p b that])
  have unref: "T1_step c x =
             x\<lparr>m_T1Queue := rest, m_T2Queue := m_T2Queue x @ [a],
               heap := (heap x)(a := (heap x a)\<lparr>referenceBit := False, firstList := False\<rparr>),
               m_q := max (m_q x - 1) (int c - int (length rest))\<rparr>"
    if "m_T1Queue x = a # rest" "\<not> referenceBit (heap x a)" for a rest
    by (rule T1_step_unreferenced[OF x(2) c31 that])
  show ?thesis
    unfolding v'_def[symmetric]
    using tie x(5) loop ref unref by (intro conjI allI impI) simp_all
qed

theorem T1_head_sweep_witness:
  "\<exists>s u t w.
       run (Cache_ctor CacheImpl 2 0) (touch 1 101 @ touch 2 102 @ touch 1 103) = Some s
     \<and> IsFull s \<and> effective_capacity s = 2
     \<and> u = sweepT2 2 (insert_start s 3 103)
     \<and> m_T1Queue u = [1, 2] \<and> referenceBit (heap u 1) \<and> \<not> longBit (heap u 1)
     \<and> T1_step 2 u = u\<lparr>m_T1Queue := [2, 1],
                         heap := (heap u)(1 := (heap u 1)\<lparr>referenceBit := False, longBit := True\<rparr>),
                         m_numShort := m_numShort u - 1, m_numLong := m_numLong u + 1\<rparr>
     \<and> sweepT1 2 u = T1_step 2 u
     \<and> InternalInsert s 3 nullptr 103 =
           (case demote (T1_step 2 u) of
              None \<Rightarrow> None
            | Some d \<Rightarrow>
               (case history_replace 2 3 d of
                  None \<Rightarrow> None
                | Some t \<Rightarrow> Some (insert_finish s 3 103 t)))
     \<and> run (Cache_ctor CacheImpl 2 0)
           (touch 1 101 @ touch 2 102 @ touch 3 103 @ touch 1 104 @ touch 4 105) = Some t
     \<and> IsFull t \<and> effective_capacity t = 2
     \<and> w = sweepT2 2 (insert_start t 5 106)
     \<and> m_T1Queue w = [1, 4] \<and> \<not> referenceBit (heap w 1) \<and> longBit (heap w 1)
     \<and> T1_step 2 w = w\<lparr>m_T1Queue := [4], m_T2Queue := m_T2Queue w @ [1],
                         heap := (heap w)(1 := (heap w 1)\<lparr>referenceBit := False, firstList := False\<rparr>),
                         m_q := max (m_q w - 1) 1\<rparr>"
proof -
  define s where "s = the (run (Cache_ctor CacheImpl 2 0) (touch 1 101 @ touch 2 102 @ touch 1 103))"
  define u where "u = sweepT2 2 (insert_start s 3 103)"
  define t where "t = the (run (Cache_ctor CacheImpl 2 0)
           (touch 1 101 @ touch 2 102 @ touch 3 103 @ touch 1 104 @ touch 4 105))"
  define w where "w = sweepT2 2 (insert_start t 5 106)"
  have s: "run (Cache_ctor CacheImpl 2 0) (touch 1 101 @ touch 2 102 @ touch 1 103) = Some s"
    "m_T1T2map s 3 = None" "IsFull s" "2 = effective_capacity s"
    unfolding s_def by (simp_all add: eval_defs)
  have u: "m_T1Queue u = [1, 2]" "referenceBit (heap u 1)" "\<not> longBit (heap u 1)"
    "m_p u = 0" "m_B1List u = []"
    unfolding u_def s_def by (simp_all add: eval_defs insert_start_def)
  have x: "m_T1Queue (T1_step 2 u) = [2, 1]" "\<not> referenceBit (heap (T1_step 2 u) 2)"
    "\<not> longBit (heap (T1_step 2 u) 2)"
    unfolding u_def s_def by (simp_all add: eval_defs insert_start_def)
  have t: "run (Cache_ctor CacheImpl 2 0)
           (touch 1 101 @ touch 2 102 @ touch 3 103 @ touch 1 104 @ touch 4 105) = Some t"
    "m_T1T2map t 5 = None" "IsFull t" "2 = effective_capacity t"
    unfolding t_def by (simp_all add: eval_defs)
  have w: "m_T1Queue w = [1, 4]" "\<not> referenceBit (heap w 1)" "longBit (heap w 1)"
    unfolding w_def t_def by (simp_all add: eval_defs insert_start_def)
  have n2: "(2::nat) < 2 ^ 31" by simp
  have l1: "length (touch 1 101 @ touch 2 102 @ touch 1 103 :: nat operation list) < 2 ^ 31"
    by (simp add: touch_def)
  have l2: "length (touch 1 101 @ touch 2 102 @ touch 3 103 @ touch 1 104 @ touch 4 105
              :: nat operation list) < 2 ^ 31"
    by (simp add: touch_def)
  have u': "u = sweepT2 2 (insert_start s 3 (if nullptr = nullptr then 103 else nullptr))"
    by (simp add: u_def)
  have w': "w = sweepT2 2 (insert_start t 5 (if nullptr = nullptr then 106 else nullptr))"
    by (simp add: w_def)
  have c0: "\<forall>i<0. T1_cond ((T1_step 2 ^^ i) u)" "\<forall>i<0. T1_cond ((T1_step 2 ^^ i) w)" by simp_all
  have c1: "\<forall>i<1. T1_cond ((T1_step 2 ^^ i) u)" using u by (simp add: T1_cond_def)
  have i0: "u = (T1_step 2 ^^ 0) u" "w = (T1_step 2 ^^ 0) w" by simp_all
  have i1: "T1_step 2 u = (T1_step 2 ^^ 1) u" by simp
  note A = T1_head_sweep[OF s(1) n2 l1 s(2,3,4) u' c0(1) i0(1)]
  note B = T1_head_sweep[OF s(1) n2 l1 s(2,3,4) u' c1 i1]
  note C = T1_head_sweep[OF t(1) n2 l2 t(2,3,4) w' c0(2) i0(2)]
  have a: "T1_step 2 u = u\<lparr>m_T1Queue := [2, 1],
                         heap := (heap u)(1 := (heap u 1)\<lparr>referenceBit := False, longBit := True\<rparr>),
                         m_numShort := m_numShort u - 1, m_numLong := m_numLong u + 1\<rparr>"
    using A u by simp
  have b: "sweepT1 2 u = T1_step 2 u" using B x by simp
  have tie: "InternalInsert s 3 nullptr 103 =
           (case demote (T1_step 2 u) of
              None \<Rightarrow> None
            | Some d \<Rightarrow>
               (case history_replace 2 3 d of
                  None \<Rightarrow> None
                | Some t \<Rightarrow> Some (insert_finish s 3 103 t)))"
    using A unfolding b by simp
  have c: "T1_step 2 w = w\<lparr>m_T1Queue := [4], m_T2Queue := m_T2Queue w @ [1],
                         heap := (heap w)(1 := (heap w 1)\<lparr>referenceBit := False, firstList := False\<rparr>),
                         m_q := max (m_q w - 1) 1\<rparr>"
    using C w by simp
  show ?thesis
    using s(1,3) s(4)[symmetric] u_def u(1,2,3) a b tie t(1,3) t(4)[symmetric] w_def w c
    by blast
qed

text \<open>
  C6. Take an insertion, into a reachable cache, of a key that is not resident, and let
  \<open>t\<close> be the cache just before the installation (\<open>before_install\<close>: after the sweeps,
  the demotion and the history replacement when the cache was full), with the capacity
  \<open>c\<close> of the insertion below \<open>2^31\<close>. If the ghost index of \<open>t\<close> has the key, with an
  element \<open>g\<close> of the first list, then \<open>g\<close> is in \<open>B1\<close> and the insertion ends with
  \<open>p = min (p + max 1 (nS div max 1 |B1|)) c\<close> (the values of \<open>t\<close>), \<open>g\<close> holding the key
  and the value with the reference bit clear and the filter Long, \<open>g\<close> at the tail of
  \<open>T1\<close>, \<open>nL\<close> incremented, \<open>g\<close> gone from \<open>B1\<close> and the key from the ghost index, and
  the key mapped to \<open>g\<close> in the resident index.
\<close>

theorem ghost_hit_in_B1:
  assumes "run (Cache_ctor interface maxNumElements maxUsedMemory) ops = Some s"
    and "m_T1T2map s key = None"
    and "before_install s key (if v = nullptr then acquired else v) = Some t"
    and "map_of (m_B1B2map t) key = Some g" "firstList (heap t g)"
    and "effective_capacity s < 2 ^ 31"
  shows "\<exists>h s'. InternalInsert s key v acquired = Some (h, s')
     \<and> g \<in> set (m_B1List t)
     \<and> m_p s' = min (m_p t + max 1 (m_numShort t div max 1 (int (length (m_B1List t)))))
                     (int (effective_capacity s))
     \<and> heap s' = (heap t)(g := \<lparr>pageKey = key, page = (if v = nullptr then acquired else v),
                                 referenceBit = False, longBit = True, firstList = True\<rparr>)
     \<and> m_T1Queue s' = m_T1Queue t @ [g]
     \<and> m_numLong s' = m_numLong t + 1 \<and> m_numShort s' = m_numShort t
     \<and> m_B1List s' = remove1 g (m_B1List t) \<and> g \<notin> set (m_B1List s')
     \<and> m_B2List s' = m_B2List t
     \<and> map_of (m_B1B2map s') key = None
     \<and> m_T1T2map s' key = Some g
     \<and> m_q s' = m_q t"
proof -
  let ?v = "if v = nullptr then acquired else v"
  let ?c = "effective_capacity s"
  have wf: "wf_lists s" "wf_index None s" by (rule wf_reachable[OF assms(1)])+
  have wt: "wf_lists t" by (rule wf_before_install(1)[OF wf assms(2,3)])
  have gB1: "g \<in> set (m_B1List t)" by (rule wf_ghost_in_B1[OF wt assms(4,5)])
  have kg: "pageKey (heap t g) = key"
    using wf_ghost_lookup(2)[OF wt assms(4)] by (simp add: key_of_def)
  have sz: "m_B1ListSize t = int (length (m_B1List t))" by (rule wf_listsD(1)[OF wt])
  have pos: "0 < length (m_B1List t)" using gB1 by (cases "m_B1List t") auto
  have nS: "0 \<le> m_numShort t" using wf_listsD(13)[OF wt] by simp
  have dB1: "distinct (m_B1List t)" using wf_listsD(3)[OF wt] by (simp add: all_lists_def)
  have p: "Min_T (m_p t + Max_T 1 (if m_B1ListSize t \<noteq> 0
                                   then int_div (m_numShort t) (m_B1ListSize t) else 0))
                 (i32 (int ?c))
           = min (m_p t + max 1 (m_numShort t div max 1 (int (length (m_B1List t))))) (int ?c)"
  proof -
    have m: "max 1 (int (length (m_B1List t))) = int (length (m_B1List t))" using pos by linarith
    have z: "int (length (m_B1List t)) \<noteq> 0" "0 < int (length (m_B1List t))" using pos by simp_all
    have d: "int_div (m_numShort t) (int (length (m_B1List t)))
             = m_numShort t div int (length (m_B1List t))"
      by (rule int_div_nonneg[OF nS z(2)])
    have c: "i32 (int ?c) = int ?c" using assms(6) by (intro i32_small) simp_all
    show ?thesis unfolding sz m Min_T_min Max_T_max c using z(1) d by simp
  qed
  have el: "(heap t g)\<lparr>page := ?v, referenceBit := False, longBit := True\<rparr>
            = \<lparr>pageKey = key, page = ?v, referenceBit = False, longBit = True, firstList = True\<rparr>"
    using kg assms(5) by (cases "heap t g") simp
  let ?s3 = "install ?c key ?v t"
  have ins: "InternalInsert s key v acquired = Some (insert_finish s key ?v t)"
    using assms(3) by (simp add: InternalInsert_miss[OF assms(2)])
  obtain h s' where hs: "insert_finish s key ?v t = (h, s')" by (cases "insert_finish s key ?v t")
  then have s': "s' = snd (Handle_ctor (?s3\<lparr>m_usedMemory := m_usedMemory ?s3
                        + CacheGetValueSize (m_interface ?s3) ?v\<rparr>) True key ?v)"
    by (simp add: insert_finish_def)
  have "m_p s' = min (m_p t + max 1 (m_numShort t div max 1 (int (length (m_B1List t))))) (int ?c)"
    unfolding s' using p by (simp add: install_B1[OF assms(4,5)] Handle_ctor_def)
  moreover have "heap s' = (heap t)(g := \<lparr>pageKey = key, page = ?v,
                                 referenceBit = False, longBit = True, firstList = True\<rparr>)"
    unfolding s' using el by (simp add: install_B1[OF assms(4,5)])
  moreover have "m_T1Queue s' = m_T1Queue t @ [g]" "m_numLong s' = m_numLong t + 1"
    "m_numShort s' = m_numShort t" "m_B1List s' = remove1 g (m_B1List t)"
    "m_B2List s' = m_B2List t" "map_of (m_B1B2map s') key = None" "m_T1T2map s' key = Some g"
    "m_q s' = m_q t"
    unfolding s' by (simp_all add: install_B1[OF assms(4,5)])
  moreover have "g \<notin> set (remove1 g (m_B1List t))" using dB1 by simp
  ultimately show ?thesis using ins hs gB1 by simp
qed

theorem ghost_hit_in_B1_witness:
  "\<exists>s t h s'. run (Cache_ctor CacheImpl 2 0) (touch 1 101 @ touch 2 102 @ touch 3 103) = Some s
     \<and> before_install s 1 104 = Some t
     \<and> m_B1List t = [2, 1] \<and> m_p t = 0
     \<and> InternalInsert s 1 nullptr 104 = Some (h, s')
     \<and> m_p s' = 1 \<and> m_T1Queue s' = [3, 1] \<and> m_B1List s' = [2]
     \<and> heap s' 1 = \<lparr>pageKey = 1, page = 104, referenceBit = False, longBit = True,
                       firstList = True\<rparr>
     \<and> m_T1T2map s' 1 = Some 1 \<and> map_of (m_B1B2map s') 1 = None"
proof -
  have "\<exists>s. run (Cache_ctor CacheImpl 2 0) (touch 1 101 @ touch 2 102 @ touch 3 103) = Some s
     \<and> m_T1T2map s 1 = None \<and> effective_capacity s = 2
     \<and> (\<exists>t. before_install s 1 104 = Some t \<and> map_of (m_B1B2map t) 1 = Some 1
            \<and> firstList (heap t 1) \<and> m_B1List t = [2, 1] \<and> m_p t = 0 \<and> m_numShort t = 1
            \<and> m_T1Queue t = [3])"
    by (simp add: eval_defs before_install_def insert_start_def)
  then obtain s t where s: "run (Cache_ctor CacheImpl 2 0) (touch 1 101 @ touch 2 102 @ touch 3 103) = Some s"
    "m_T1T2map s 1 = None" "before_install s 1 (if nullptr = nullptr then 104 else nullptr) = Some t"
    "map_of (m_B1B2map t) 1 = Some 1" "firstList (heap t 1)" "effective_capacity s < 2 ^ 31"
    and v: "effective_capacity s = 2" "m_B1List t = [2, 1]" "m_p t = 0" "m_numShort t = 1"
      "m_T1Queue t = [3]"
    by auto
  from ghost_hit_in_B1[OF s] s(1) s(3) v show ?thesis by auto
qed



end
